theory Spec2Isabelle
  imports Main "HOL-Library.Sublist"
begin

section \<open>Python values and library functions used by download\_images.py\<close>

text \<open>
  Strings are byte strings (the UTF-8 encoding of the Python text): every delimiter the
  program looks for is ASCII, so searching, splitting and replacing agree on both views.
  Exceptions are values of \<open>exn\<close>; a call that may raise returns \<open>exn + 'a\<close>.
\<close>

datatype exn = TypeError | ValueError | UnboundLocalError | FileNotFoundError | FileExistsError
  | OSError | RequestException string

datatype pyval = PyBool bool | PyInt int

type_synonym kwargs = "(string \<times> pyval) list"

text \<open>\<open>str.lower()\<close> on ASCII letters; every other byte is left as it is.\<close>

definition lower_char :: "char \<Rightarrow> char" where
  "lower_char c = (let n = (of_char c :: nat) in if 65 \<le> n \<and> n \<le> 90 then char_of (n + 32) else c)"

definition lower :: "string \<Rightarrow> string" where
  "lower s = map lower_char s"

text \<open>\<open>str(n)\<close> for an integer: decimal digits, a leading minus sign when negative.\<close>

fun str_nat :: "nat \<Rightarrow> string" where
  "str_nat n = (if n < 10 then [char_of (48 + n)] else str_nat (n div 10) @ [char_of (48 + n mod 10)])"

definition str_int :: "int \<Rightarrow> string" where
  "str_int i = (if i < 0 then CHR ''-'' # str_nat (nat (- i)) else str_nat (nat i))"

text \<open>
  \<open>s.replace(old, new)\<close>: occurrences of \<open>old\<close> are found from left to right and do not
  overlap; the search resumes after each replaced occurrence. An empty \<open>old\<close> matches
  before every character and at the end.
\<close>

fun replace_empty :: "string \<Rightarrow> string \<Rightarrow> string" where
  "replace_empty new [] = new"
| "replace_empty new (c # cs) = new @ c # replace_empty new cs"

fun replace_scan :: "string \<Rightarrow> string \<Rightarrow> string \<Rightarrow> string" where
  "replace_scan old new [] = []"
| "replace_scan old new (c # cs) =
     (if prefix old (c # cs) then new @ replace_scan old new (drop (length old - 1) cs)
      else c # replace_scan old new cs)"

definition str_replace :: "string \<Rightarrow> string \<Rightarrow> string \<Rightarrow> string" where
  "str_replace s old new = (if old = [] then replace_empty new s else replace_scan old new s)"

text \<open>
  Keyword binding of a call \<open>f(k=v, **d)\<close>: a key given both explicitly and through the
  unpacked dictionary raises \<open>TypeError\<close> (multiple values for a keyword argument) before
  the callee runs.
\<close>

definition bind_kwargs :: "kwargs \<Rightarrow> kwargs \<Rightarrow> exn + kwargs" where
  "bind_kwargs explicit starred =
     (if filter (\<lambda>kv. fst kv \<in> set (map fst explicit)) starred = [] then Inr (explicit @ starred)
      else Inl TypeError)"

subsection \<open>urllib.parse.urlparse(url).path and os.path.basename\<close>

text \<open>
  The path component as CPython's \<open>urlsplit\<close>/\<open>urlparse\<close> compute it: leading control
  characters and spaces are stripped, tab, CR and LF removed, a scheme is split off at the
  first colon when everything before it is a scheme character, after \<open>//\<close> the network
  location runs to the first of \<open>/ ? #\<close>, then the fragment, the query and (for the schemes
  that use them) the parameters of the last segment are cut off. A network location with
  only one of the two square brackets raises \<open>ValueError\<close>. A network location with both
  brackets or with a non-ASCII character is validated further by the library (the
  bracketed host must be an IPv6 or IPvFuture address, the NFKC form must not bring in a
  delimiter); that verdict is the parameter \<open>netloc_ok\<close>. \<open>os.path\<close> is \<open>posixpath\<close>.
\<close>

definition scheme_char :: "char \<Rightarrow> bool" where
  "scheme_char c = (let n = (of_char c :: nat) in
     (97 \<le> n \<and> n \<le> 122) \<or> (65 \<le> n \<and> n \<le> 90) \<or> (48 \<le> n \<and> n \<le> 57)
     \<or> c = CHR ''+'' \<or> c = CHR ''-'' \<or> c = CHR ''.'')"

definition ascii_alpha :: "char \<Rightarrow> bool" where
  "ascii_alpha c = (let n = (of_char c :: nat) in (97 \<le> n \<and> n \<le> 122) \<or> (65 \<le> n \<and> n \<le> 90))"

definition uses_params :: "string list" where
  "uses_params = ['''', ''ftp'', ''hdl'', ''prospero'', ''http'', ''imap'', ''https'', ''shttp'',
     ''rtsp'', ''rtsps'', ''rtspu'', ''sip'', ''sips'', ''mms'', ''sftp'', ''tel'']"

definition split_scheme :: "string \<Rightarrow> string \<times> string" where
  "split_scheme url =
     (let pre = takeWhile (\<lambda>c. c \<noteq> CHR '':'') url; rest = dropWhile (\<lambda>c. c \<noteq> CHR '':'') url in
      if rest \<noteq> [] \<and> pre \<noteq> [] \<and> ascii_alpha (hd pre) \<and> filter (\<lambda>c. \<not> scheme_char c) pre = []
      then (lower pre, tl rest) else ([], url))"

definition is_delim :: "char \<Rightarrow> bool" where
  "is_delim c = (c = CHR ''/'' \<or> c = CHR ''?'' \<or> c = CHR ''#'')"

definition splitparams :: "string \<Rightarrow> string" where
  "splitparams url =
     (if CHR ''/'' \<in> set url then
        (let seg = rev (takeWhile (\<lambda>c. c \<noteq> CHR ''/'') (rev url));
             hd_part = take (length url - length seg) url
         in hd_part @ takeWhile (\<lambda>c. c \<noteq> CHR '';'') seg)
      else takeWhile (\<lambda>c. c \<noteq> CHR '';'') url)"

definition needs_validation :: "string \<Rightarrow> bool" where
  "needs_validation netloc =
     ((CHR ''['' \<in> set netloc \<and> CHR '']'' \<in> set netloc)
      \<or> filter (\<lambda>c. 128 \<le> (of_char c :: nat)) netloc \<noteq> [])"

definition urlparse_path :: "(string \<Rightarrow> bool) \<Rightarrow> string \<Rightarrow> exn + string" where
  "urlparse_path netloc_ok url0 =
     (let url1 = dropWhile (\<lambda>c. (of_char c :: nat) \<le> 32) url0;
          url2 = filter (\<lambda>c. (of_char c :: nat) \<notin> {9, 10, 13}) url1;
          (scheme, url3) = split_scheme url2;
          has_netloc = (take 2 url3 = ''//'');
          netloc = (if has_netloc then takeWhile (\<lambda>c. \<not> is_delim c) (drop 2 url3) else []);
          url4 = (if has_netloc then dropWhile (\<lambda>c. \<not> is_delim c) (drop 2 url3) else url3)
      in if (CHR ''['' \<in> set netloc) \<noteq> (CHR '']'' \<in> set netloc) then Inl ValueError
         else if needs_validation netloc \<and> \<not> netloc_ok netloc then Inl ValueError
         else
           (let url5 = takeWhile (\<lambda>c. c \<noteq> CHR ''#'') url4;
                url6 = takeWhile (\<lambda>c. c \<noteq> CHR ''?'') url5
            in Inr (if scheme \<in> set uses_params \<and> CHR '';'' \<in> set url6
                    then splitparams url6 else url6)))"

definition basename :: "string \<Rightarrow> string" where
  "basename p = rev (takeWhile (\<lambda>c. c \<noteq> CHR ''/'') (rev p))"

subsection \<open>pathlib paths\<close>

text \<open>
  A \<open>Path\<close> is its list of components; \<open>d / name\<close> appends one. \<open>with_suffix\<close> replaces
  the suffix of the last component (the part from its last dot, when that dot is neither
  the first nor the last character) and raises \<open>ValueError\<close> on an empty name.
\<close>

type_synonym path = "string list"

definition path_suffix :: "string \<Rightarrow> string" where
  "path_suffix name =
     (let ext = rev (takeWhile (\<lambda>c. c \<noteq> CHR ''.'') (rev name)) in
      if CHR ''.'' \<in> set name \<and> ext \<noteq> [] \<and> Suc (length ext) < length name
      then CHR ''.'' # ext else [])"

definition with_suffix :: "path \<Rightarrow> string \<Rightarrow> exn + path" where
  "with_suffix p sfx =
     (if p = [] \<or> last p = [] then Inl ValueError
      else Inr (butlast p @ [take (length (last p) - length (path_suffix (last p))) (last p) @ sfx]))"

section \<open>The world the script runs in\<close>

text \<open>
  The file system maps paths to file contents (directories are not modelled, so
  \<open>mkdir\<close> has no counterpart). Every request, sleep, write and rename is appended to the
  trace; the progress lines the script prints are left out. What the outside decides is
  a parameter: the outcome of the n-th HTTP request (\<open>session.get\<close> with the retries of
  the mounted adapter, followed by \<open>raise_for_status\<close>), the built-in \<open>hash\<close> of a string,
  whether \<open>urlparse\<close> accepts a network location that it validates, whether a file can
  be opened for writing, whether \<open>os.rename\<close> replaces a destination that exists (POSIX)
  or raises \<open>FileExistsError\<close> (Windows), and the directory the script is hard-wired to.
\<close>

datatype event = Request string kwargs | Sleep nat | WriteFile path string | Rename path path

record world =
  files :: "path \<rightharpoonup> string"
  requests :: nat
  trace :: "event list"

record env =
  http_get :: "nat \<Rightarrow> string \<Rightarrow> kwargs \<Rightarrow> exn + string"
  hash :: "string \<Rightarrow> int"
  netloc_ok :: "string \<Rightarrow> bool"
  writable :: "path \<Rightarrow> bool"
  rename_replaces :: bool
  current_dir :: path

text \<open>\<open>time.sleep\<close>, in milliseconds.\<close>

definition sleep :: "nat \<Rightarrow> world \<Rightarrow> world" where
  "sleep ms w = w\<lparr>trace := trace w @ [Sleep ms]\<rparr>"

definition write_file :: "path \<Rightarrow> string \<Rightarrow> world \<Rightarrow> world" where
  "write_file p content w = w\<lparr>files := (files w)(p \<mapsto> content), trace := trace w @ [WriteFile p content]\<rparr>"

text \<open>\<open>os.rename\<close>: a missing source raises, and so does an existing destination on Windows.\<close>

definition rename :: "env \<Rightarrow> path \<Rightarrow> path \<Rightarrow> world \<Rightarrow> exn + world" where
  "rename e src dst w =
     (case files w src of
        None \<Rightarrow> Inl FileNotFoundError
      | Some content \<Rightarrow>
          if files w dst \<noteq> None \<and> \<not> rename_replaces e then Inl FileExistsError
          else Inr (w\<lparr>files := ((files w)(src := None))(dst \<mapsto> content), trace := trace w @ [Rename src dst]\<rparr>))"

section \<open>download\_image\<close>

definition ssl_options :: "kwargs list" where
  "ssl_options =
     [[(''verify'', PyBool True)],
      [(''verify'', PyBool False)],
      [(''verify'', PyBool True), (''timeout'', PyInt 60)]]"

text \<open>\<open>session.get(url, timeout=30, **ssl_config)\<close> followed by \<open>raise_for_status()\<close>.\<close>

definition session_get :: "env \<Rightarrow> string \<Rightarrow> kwargs \<Rightarrow> world \<Rightarrow> (exn + string) \<times> world" where
  "session_get e url ssl_config w =
     (case bind_kwargs [(''timeout'', PyInt 30)] ssl_config of
        Inl err \<Rightarrow> (Inl err, w)
      | Inr kw \<Rightarrow>
          (http_get e (requests w) url kw,
           w\<lparr>requests := Suc (requests w), trace := trace w @ [Request url kw]\<rparr>))"

text \<open>
  The loop over the configurations (lines 46 to 56): the first response ends it, an
  exception on the last configuration is raised again, any other exception is followed by
  a sleep of one second. With no configuration at all the name \<open>response\<close> stays unbound.
\<close>

fun try_ssl_options :: "env \<Rightarrow> string \<Rightarrow> kwargs list \<Rightarrow> world \<Rightarrow> (exn + string) \<times> world" where
  "try_ssl_options e url [] w = (Inl UnboundLocalError, w)"
| "try_ssl_options e url (ssl_config # rest) w =
     (case session_get e url ssl_config w of
        (Inr response, w1) \<Rightarrow> (Inr response, w1)
      | (Inl err, w1) \<Rightarrow>
          if rest = [] then (Inl err, w1) else try_ssl_options e url rest (sleep 1000 w1))"

text \<open>Lines 58 to 68: the local file name, from the base name of the URL's path.\<close>

definition derive_filename :: "env \<Rightarrow> string \<Rightarrow> string \<Rightarrow> string" where
  "derive_filename e url base =
     (let filename = (if base = [] \<or> CHR ''.'' \<notin> set base
                      then ''image_'' @ str_int (hash e url) @ ''.png'' else base)
      in if \<not> suffix ''.png'' filename then filename @ ''.png'' else filename)"

definition filename_of_url :: "env \<Rightarrow> string \<Rightarrow> exn + string" where
  "filename_of_url e url =
     (case urlparse_path (netloc_ok e) url of
        Inl err \<Rightarrow> Inl err
      | Inr p \<Rightarrow> Inr (derive_filename e url (basename p)))"

text \<open>
  The whole function: every exception raised inside is caught by the outer handler, which
  returns \<open>None\<close>.
\<close>

definition download_image :: "env \<Rightarrow> string \<Rightarrow> path \<Rightarrow> world \<Rightarrow> string option \<times> world" where
  "download_image e url save_dir w =
     (case try_ssl_options e url ssl_options w of
        (Inl err, w1) \<Rightarrow> (None, w1)
      | (Inr response, w1) \<Rightarrow>
          (case filename_of_url e url of
             Inl err \<Rightarrow> (None, w1)
           | Inr filename \<Rightarrow>
               (let filepath = save_dir @ [filename]
                in if writable e filepath then (Some filename, write_file filepath response w1)
                   else (None, w1))))"

section \<open>extract\_image\_urls\<close>

text \<open>
  \<open>re.findall\<close> with the pattern \<open><img[^>]+src=["']([^"']+)["'][^>]*>\<close>, as the
  backtracking matcher runs it. After \<open>src=\<close> and a quote the value is the longest run of
  non-quote characters (a shorter run is followed by a non-quote, so it cannot match), then
  a quote, then everything up to the next \<open>>\<close>.
\<close>

definition is_quote :: "char \<Rightarrow> bool" where
  "is_quote c = (c = CHR 0x22 \<or> c = CHR 0x27)"

definition match_src_value :: "string \<Rightarrow> (string \<times> string) option" where
  "match_src_value s =
     (case s of
        [] \<Rightarrow> None
      | q # r \<Rightarrow>
          if \<not> is_quote q then None
          else (let v = takeWhile (\<lambda>c. \<not> is_quote c) r in
                if v = [] then None
                else (case dropWhile (\<lambda>c. \<not> is_quote c) r of
                        [] \<Rightarrow> None
                      | q2 # r2 \<Rightarrow>
                          (case dropWhile (\<lambda>c. c \<noteq> CHR ''>'') r2 of
                             [] \<Rightarrow> None
                           | g # r3 \<Rightarrow> Some (v, r3)))))"

text \<open>
  \<open>[^>]+\<close> is greedy: it first takes the whole run of characters other than \<open>>\<close> and
  gives them back one at a time, down to one, until \<open>src=\<close> and the rest match.
\<close>

fun match_after_img :: "string \<Rightarrow> nat \<Rightarrow> (string \<times> string) option" where
  "match_after_img t 0 = None"
| "match_after_img t (Suc j) =
     (if prefix ''src='' (drop (Suc j) t)
      then (case match_src_value (drop (Suc j + 4) t) of
              Some r \<Rightarrow> Some r
            | None \<Rightarrow> match_after_img t j)
      else match_after_img t j)"

definition match_img :: "string \<Rightarrow> (string \<times> string) option" where
  "match_img s =
     (if prefix ''<img'' s
      then match_after_img (drop 4 s) (length (takeWhile (\<lambda>c. c \<noteq> CHR ''>'') (drop 4 s)))
      else None)"

text \<open>The scan: a match is recorded and the search resumes after it, otherwise one character on.\<close>

function findall_img :: "string \<Rightarrow> string list" where
  "findall_img [] = []"
| "findall_img (c # cs) =
     (case match_img (c # cs) of
        Some (v, rest) \<Rightarrow> v # findall_img rest
      | None \<Rightarrow> findall_img cs)"
  by pat_completeness auto
termination
proof (relation "measure length")
  show "wf (measure length)" by simp
next
  fix c :: char and cs
  show "(cs, c # cs) \<in> measure length" by simp
next
  fix c :: char and cs x2 v rest
  assume m: "match_img (c # cs) = Some x2" and x2: "(v, rest) = x2"
  have dw: "\<And>P (xs :: string). length (dropWhile P xs) \<le> length xs"
    by (simp add: length_dropWhile_le)
  have value_shorter: "length r < length s" if "match_src_value s = Some (u, r)" for s u r
  proof -
    from that obtain q r0 q2 r2 g where s: "s = q # r0"
      and d1: "dropWhile (\<lambda>c. \<not> is_quote c) r0 = q2 # r2"
      and d2: "dropWhile (\<lambda>c. c \<noteq> CHR ''>'') r2 = g # r"
      by (auto simp: match_src_value_def Let_def split: list.splits if_splits)
    from dw [of "\<lambda>c. \<not> is_quote c" r0] d1 have "length r2 < length r0" by simp
    moreover from dw [of "\<lambda>c. c \<noteq> CHR ''>''" r2] d2 have "length r < length r2" by simp
    ultimately show ?thesis using s by simp
  qed
  have after_shorter: "length r < length t" if "match_after_img t j = Some (u, r)" for t j u r
    using that
    by (induction j) (auto split: if_splits option.splits dest!: value_shorter)
  from m x2 have "length rest < length (c # cs)"
    by (auto simp: match_img_def split: if_splits dest!: after_shorter)
  then show "(rest, c # cs) \<in> measure length" by simp
qed

text \<open>Lines 94 to 97: the loop that keeps the PNG URLs.\<close>

fun png_loop :: "string list \<Rightarrow> string list \<Rightarrow> string list" where
  "png_loop [] png_urls = png_urls"
| "png_loop (url # img_urls) png_urls =
     png_loop img_urls
       (if suffix ''.png'' url \<or> sublist ''png'' (lower url) then png_urls @ [url] else png_urls)"

definition extract_from_text :: "string \<Rightarrow> string list" where
  "extract_from_text content = png_loop (findall_img content) []"

definition extract_image_urls :: "path \<Rightarrow> world \<Rightarrow> exn + string list" where
  "extract_image_urls html_file w =
     (case files w html_file of
        None \<Rightarrow> Inl FileNotFoundError
      | Some content \<Rightarrow> Inr (extract_from_text content))"

section \<open>replace\_image\_urls\<close>

text \<open>
  A \<open>dict\<close> keeps its keys in insertion order, and assigning to a key that is present
  keeps the key's position: an association list.
\<close>

type_synonym url_mapping = "(string \<times> string option) list"

fun dict_set :: "('k \<times> 'v) list \<Rightarrow> 'k \<Rightarrow> 'v \<Rightarrow> ('k \<times> 'v) list" where
  "dict_set [] k v = [(k, v)]"
| "dict_set ((k', v') # kvs) k v = (if k' = k then (k, v) # kvs else (k', v') # dict_set kvs k v)"

text \<open>Truth value of a file name or \<open>None\<close>: \<open>None\<close> and the empty string are false.\<close>

fun truthy :: "string option \<Rightarrow> bool" where
  "truthy None = False"
| "truthy (Some f) = (f \<noteq> [])"

text \<open>Line 109: the local path that takes the place of a remote URL.\<close>

definition local_path :: "string \<Rightarrow> string" where
  "local_path f = ''./downloaded_images/'' @ f"

fun replace_loop :: "url_mapping \<Rightarrow> string \<Rightarrow> string" where
  "replace_loop [] content = content"
| "replace_loop ((remote_url, local_filename) # rest) content =
     replace_loop rest
       (case local_filename of
          None \<Rightarrow> content
        | Some f \<Rightarrow> if f \<noteq> [] then str_replace content remote_url (local_path f)
                   else content)"

definition replace_image_urls :: "env \<Rightarrow> path \<Rightarrow> url_mapping \<Rightarrow> world \<Rightarrow> exn option \<times> world" where
  "replace_image_urls e html_file m w =
     (case files w html_file of
        None \<Rightarrow> (Some FileNotFoundError, w)
      | Some content0 \<Rightarrow>
          (let content = replace_loop m content0 in
           case with_suffix html_file ''.html.backup'' of
             Inl err \<Rightarrow> (Some err, w)
           | Inr backup_file \<Rightarrow>
               (case rename e html_file backup_file w of
                  Inl err \<Rightarrow> (Some err, w)
                | Inr w1 \<Rightarrow>
                    if writable e html_file then (None, write_file html_file content w1)
                    else (Some OSError, w1))))"

section \<open>main\<close>

text \<open>Lines 159 to 162: one download per URL, the result stored under the URL, half a second of sleep.\<close>

fun download_loop :: "env \<Rightarrow> path \<Rightarrow> string list \<Rightarrow> url_mapping \<Rightarrow> world \<Rightarrow> url_mapping \<times> world" where
  "download_loop e download_dir [] m w = (m, w)"
| "download_loop e download_dir (url # image_urls) m w =
     (case download_image e url download_dir w of
        (filename, w1) \<Rightarrow> download_loop e download_dir image_urls (dict_set m url filename) (sleep 500 w1))"

definition success_count :: "url_mapping \<Rightarrow> nat" where
  "success_count m = length (filter truthy (map snd m))"

definition main :: "env \<Rightarrow> world \<Rightarrow> exn option \<times> world" where
  "main e w =
     (let download_dir = current_dir e @ [''downloaded_images''];
          html_file = current_dir e @ [''index.html'']
      in case extract_image_urls html_file w of
           Inl err \<Rightarrow> (None, w)
         | Inr image_urls \<Rightarrow>
             if image_urls = [] then (None, w)
             else (case download_loop e download_dir image_urls [] w of
                     (m, w1) \<Rightarrow>
                       if success_count m > 0 then replace_image_urls e html_file m w1
                       else (None, w1)))"

section \<open>Observations used in the statements\<close>

text \<open>
  A document as a sequence of pieces: text, and image tags written as \<open><img\<close>, some
  attributes, \<open>src=\<close>, a quote, the value, a quote, more attributes and \<open>>\<close>. A text piece
  is simple when it holds no \<open><img\<close> and does not end with a beginning of it; a tag is simple
  when something other than \<open>>\<close> stands before \<open>src=\<close>, its value is not empty and has no
  quote, and neither \<open>>\<close> nor a further \<open>src=\<close> follows the value inside the tag.
\<close>

datatype piece = Text string | Img string char string char string

fun render_piece :: "piece \<Rightarrow> string" where
  "render_piece (Text s) = s"
| "render_piece (Img before q1 v q2 after) =
     ''<img'' @ before @ ''src='' @ [q1] @ v @ [q2] @ after @ ''>''"

definition render :: "piece list \<Rightarrow> string" where
  "render ps = concat (map render_piece ps)"

fun piece_values :: "piece \<Rightarrow> string list" where
  "piece_values (Text s) = []"
| "piece_values (Img before q1 v q2 after) = [v]"

definition src_values :: "piece list \<Rightarrow> string list" where
  "src_values ps = concat (map piece_values ps)"

fun simple_piece :: "piece \<Rightarrow> bool" where
  "simple_piece (Text s) =
     (\<not> sublist ''<img'' s \<and> \<not> suffix ''<'' s \<and> \<not> suffix ''<i'' s \<and> \<not> suffix ''<im'' s)"
| "simple_piece (Img before q1 v q2 after) =
     (before \<noteq> [] \<and> CHR ''>'' \<notin> set before \<and> is_quote q1 \<and> is_quote q2
      \<and> v \<noteq> [] \<and> filter is_quote v = [] \<and> CHR ''>'' \<notin> set after
      \<and> \<not> sublist ''src='' (v @ [q2] @ after))"

text \<open>A value of the mapping: \<open>None\<close>, or a file name that is not empty and ends with \<open>.png\<close>.\<close>

definition filename_or_none :: "string option \<Rightarrow> bool" where
  "filename_or_none v = (case v of None \<Rightarrow> True | Some f \<Rightarrow> f \<noteq> [] \<and> suffix ''.png'' f)"

text \<open>The file-system events of a trace that read or write a given path.\<close>

fun touches :: "path \<Rightarrow> event \<Rightarrow> bool" where
  "touches p (WriteFile q c) = (q = p)"
| "touches p (Rename a b) = (a = p \<or> b = p)"
| "touches p (Request u kw) = False"
| "touches p (Sleep n) = False"

text \<open>
  Two strings overlap when one occurs in the other or a non-empty end of one is a
  beginning of the other.
\<close>

definition overlap :: "string \<Rightarrow> string \<Rightarrow> bool" where
  "overlap v r =
     (sublist v r \<or> sublist r v
      \<or> list_ex (\<lambda>s. s \<noteq> [] \<and> prefix s v) (suffixes r)
      \<or> list_ex (\<lambda>s. s \<noteq> [] \<and> prefix s r) (suffixes v))"

text \<open>The entries of the mapping that the rewrite substitutes: a file name that is not empty.\<close>

definition successes :: "url_mapping \<Rightarrow> (string \<times> string) list" where
  "successes m =
     concat (map (\<lambda>(url, v). case v of None \<Rightarrow> [] | Some f \<Rightarrow> if f \<noteq> [] then [(url, f)] else []) m)"

text \<open>No URL of a substituted entry overlaps the local path of a substituted entry.\<close>

definition no_overlaps :: "url_mapping \<Rightarrow> bool" where
  "no_overlaps m =
     list_all (\<lambda>(url, f). list_all (\<lambda>(url', f'). \<not> overlap url (local_path f'))
                 (successes m)) (successes m)"

section \<open>Example worlds\<close>

text \<open>
  A world with no files, and three environments: one whose server answers every request,
  one whose server never answers, and one whose server answers only a request made with
  certificate verification and a timeout of 60 seconds.
\<close>

definition world0 :: world where
  "world0 = \<lparr>files = Map.empty, requests = 0, trace = []\<rparr>"

definition env_ok :: env where
  "env_ok = \<lparr>http_get = (\<lambda>n url kw. Inr ''data''), hash = (\<lambda>url. 7),
     netloc_ok = (\<lambda>netloc. True), writable = (\<lambda>p. True), rename_replaces = False, current_dir = [''site'']\<rparr>"

definition env_down :: env where
  "env_down = \<lparr>http_get = (\<lambda>n url kw. Inl (RequestException ''timed out'')), hash = (\<lambda>url. 7),
     netloc_ok = (\<lambda>netloc. True), writable = (\<lambda>p. True), rename_replaces = False, current_dir = [''site'']\<rparr>"

definition env_slow :: env where
  "env_slow = \<lparr>http_get = (\<lambda>n url kw.
       if map_of kw ''verify'' = Some (PyBool True) \<and> map_of kw ''timeout'' = Some (PyInt 60)
       then Inr ''data'' else Inl (RequestException ''timed out'')),
     hash = (\<lambda>url. 7), netloc_ok = (\<lambda>netloc. True), writable = (\<lambda>p. True), rename_replaces = False, current_dir = [''site'']\<rparr>"

text \<open>A document with one image, and the world that holds it as \<open>site/index.html\<close>.\<close>

definition doc_one :: string where
  "doc_one = ''<img src=\"https://host/a.png\">''"

definition world_doc :: "string \<Rightarrow> world" where
  "world_doc content = \<lparr>files = [[''site'', ''index.html''] \<mapsto> content], requests = 0, trace = []\<rparr>"

text \<open>
  A document in which the URL of the image occurs a second time, right after a copy of
  the URL without its last character.
\<close>

text \<open>Three image tags with other attributes around \<open>src\<close>, and text between them.\<close>

definition doc_pieces :: "piece list" where
  "doc_pieces =
     [Img '' '' (CHR 0x22) ''a.png'' (CHR 0x22) [],
      Text ''<p>x</p>'',
      Img '' class=k '' (CHR 0x27) ''b.jpg'' (CHR 0x27) '' alt=x'',
      Img '' id=c '' (CHR 0x22) ''c.PNG'' (CHR 0x22) '' /'']"

definition doc_dot :: string where
  "doc_dot = ''<img src=\"http://h/png.\"><a href=\"http://h/pnghttp://h/png.\">''"

section \<open>Properties of the extraction filter\<close>

lemma png_loop_filter:
  "png_loop img_urls png_urls =
     png_urls @ filter (\<lambda>url. suffix ''.png'' url \<or> sublist ''png'' (lower url)) img_urls"
  by (induction img_urls arbitrary: png_urls) simp_all

lemma lower_append: "lower (a @ b) = lower a @ lower b"
  by (simp add: lower_def)

lemma lower_png: "lower ''.png'' = ''.png''"
  by code_simp

lemma suffix_png_sublist:
  assumes "suffix ''.png'' s"
  shows "sublist ''png'' (lower s)"
proof -
  from assms obtain t where "s = t @ ''.png''" by (auto simp: suffix_def)
  then have "lower s = (lower t @ ''.'') @ ''png'' @ []"
    by (simp add: lower_append lower_png)
  then show ?thesis
    unfolding sublist_def by blast
qed

text \<open>
  C9. A value that ends with \<open>.png\<close> contains \<open>png\<close> once lower-cased, so the test of
  line 96 (ends with \<open>.png\<close>, or the lower-cased value contains \<open>png\<close>) accepts the same
  values as the substring test alone, and the loop keeps exactly the values that pass the
  substring test.
\<close>

theorem suffix_test_redundant:
  "(suffix ''.png'' s \<longrightarrow> sublist ''png'' (lower s))
   \<and> ((suffix ''.png'' s \<or> sublist ''png'' (lower s)) = sublist ''png'' (lower s))
   \<and> png_loop img_urls [] = filter (\<lambda>url. sublist ''png'' (lower url)) img_urls"
proof -
  have eq: "(\<lambda>url. suffix ''.png'' url \<or> sublist ''png'' (lower url)) = (\<lambda>url. sublist ''png'' (lower url))"
    using suffix_png_sublist by auto
  show ?thesis
    using suffix_png_sublist [of s] by (auto simp: png_loop_filter eq)
qed

theorem suffix_test_redundant_witness:
  "suffix ''.png'' ''a.png'' \<and> sublist ''png'' (lower ''a.png'')"
proof -
  have h: "suffix ''.png'' ''a.png''" by code_simp
  from suffix_test_redundant [of "''a.png''" "[]"] h show ?thesis by blast
qed

section \<open>The local file name\<close>

lemma lower_char_dot: "lower_char c = CHR ''.'' \<Longrightarrow> c = CHR ''.''"
proof -
  assume a: "lower_char c = CHR ''.''"
  show ?thesis
  proof (cases "65 \<le> (of_char c :: nat) \<and> (of_char c :: nat) \<le> 90")
    case True
    with a have "char_of (of_char c + 32 :: nat) = CHR ''.''"
      by (simp add: lower_char_def Let_def)
    then have "(of_char (char_of (of_char c + 32 :: nat) :: char) :: nat) = of_char CHR ''.''"
      by simp
    then have "(of_char c + 32 :: nat) mod 256 = 46"
      by (simp only: of_char_of) simp
    with True show ?thesis by simp
  next
    case False
    with a show ?thesis by (simp add: lower_char_def Let_def)
  qed
qed

lemma derive_filename_nonempty_png:
  "derive_filename e url base \<noteq> [] \<and> suffix ''.png'' (derive_filename e url base)"
  by (auto simp: derive_filename_def Let_def suffix_def)

lemma derive_filename_keeps_png:
  "suffix ''.png'' base \<Longrightarrow> derive_filename e url base = base"
  by (auto simp: derive_filename_def Let_def suffix_def)

lemma derive_filename_synth:
  "base = [] \<or> CHR ''.'' \<notin> set base \<Longrightarrow>
   derive_filename e url base = ''image_'' @ str_int (hash e url) @ ''.png''"
  by (auto simp: derive_filename_def Let_def suffix_def)

lemma derive_filename_appends:
  "CHR ''.'' \<in> set base \<Longrightarrow> \<not> suffix ''.png'' base \<Longrightarrow> derive_filename e url base = base @ ''.png''"
  by (auto simp: derive_filename_def Let_def)

lemma variant_not_suffix:
  assumes "lower ext = ''.png''" "ext \<noteq> ''.png''"
  shows "CHR ''.'' \<in> set (stem @ ext) \<and> \<not> suffix ''.png'' (stem @ ext)"
proof -
  have "length (lower ext) = length ext" by (simp add: lower_def)
  with assms(1) have len: "length ext = 4" by simp
  then obtain a b c d where ext: "ext = [a, b, c, d]"
    by (auto simp: numeral_eq_Suc length_Suc_conv)
  from assms(1) ext have "lower_char a = CHR ''.''" by (simp add: lower_def)
  then have "a = CHR ''.''" by (rule lower_char_dot)
  with ext have dot: "CHR ''.'' \<in> set (stem @ ext)" by simp
  have "\<not> suffix ''.png'' (stem @ ext)"
  proof
    assume "suffix ''.png'' (stem @ ext)"
    then obtain t where "stem @ ext = t @ ''.png''" by (auto simp: suffix_def)
    with len have "ext = ''.png''" by (simp add: append_eq_append_conv)
    with assms(2) show False by simp
  qed
  with dot show ?thesis by simp
qed

lemma download_image_Some:
  assumes "fst (download_image e url save_dir w) = Some filename"
  shows "\<exists>body w1. try_ssl_options e url ssl_options w = (Inr body, w1)
           \<and> filename_of_url e url = Inr filename \<and> writable e (save_dir @ [filename])
           \<and> download_image e url save_dir w = (Some filename, write_file (save_dir @ [filename]) body w1)"
  using assms
  by (auto simp: download_image_def Let_def split: prod.splits sum.splits if_splits)

lemma download_image_ok:
  assumes "try_ssl_options e url ssl_options w = (Inr body, w1)"
    and "filename_of_url e url = Inr filename" and "writable e (save_dir @ [filename])"
  shows "download_image e url save_dir w = (Some filename, write_file (save_dir @ [filename]) body w1)"
  using assms by (simp add: download_image_def Let_def)

lemma filename_of_url_png:
  "filename_of_url e url = Inr filename \<Longrightarrow> filename \<noteq> [] \<and> suffix ''.png'' filename"
  using derive_filename_nonempty_png
  by (auto simp: filename_of_url_def split: sum.splits)

lemma split_https: "split_scheme (''https://'' @ rest) = (''https'', ''//'' @ rest)"
proof -
  have "lower ''https'' = ''https''" by code_simp
  moreover have "ascii_alpha CHR ''h''" by code_simp
  moreover have "filter (\<lambda>c. \<not> scheme_char c) ''https'' = []" by code_simp
  ultimately show ?thesis by (simp add: split_scheme_def)
qed

lemma path_of_host_url:
  assumes "filter (\<lambda>c. (of_char c :: nat) \<in> {9, 10, 13}) p = []"
    and "CHR ''#'' \<notin> set p" and "CHR ''?'' \<notin> set p" and "CHR '';'' \<notin> set p"
  shows "urlparse_path ok (''https://host/'' @ p) = Inr (''/'' @ p)"
proof -
  have f: "filter (\<lambda>c. (of_char c :: nat) \<notin> {9, 10, 13}) p = p"
    using assms(1) by (induction p) (auto split: if_splits)
  have t1: "takeWhile (\<lambda>c. c \<noteq> CHR ''#'') (''/'' @ p) = ''/'' @ p"
    using assms(2) by (auto simp: takeWhile_eq_all_conv)
  have t2: "takeWhile (\<lambda>c. c \<noteq> CHR ''?'') (''/'' @ p) = ''/'' @ p"
    using assms(3) by (auto simp: takeWhile_eq_all_conv)
  have u1: "dropWhile (\<lambda>c. (of_char c :: nat) \<le> 32) (''https://host/'' @ p) = ''https://host/'' @ p"
    by simp
  have u2: "filter (\<lambda>c. (of_char c :: nat) \<notin> {9, 10, 13}) (''https://host/'' @ p) = ''https://'' @ (''host/'' @ p)"
    using f by simp
  have n1: "take 2 (''//'' @ (''host/'' @ p)) = ''//''" by simp
  have n2: "takeWhile (\<lambda>c. \<not> is_delim c) (drop 2 (''//'' @ (''host/'' @ p))) = ''host''"
    by (simp add: is_delim_def)
  have n3: "dropWhile (\<lambda>c. \<not> is_delim c) (drop 2 (''//'' @ (''host/'' @ p))) = ''/'' @ p"
    by (simp add: is_delim_def)
  have v: "\<not> needs_validation ''host''" by code_simp
  have b: "(CHR ''['' \<in> set ''host'') = (CHR '']'' \<in> set ''host'')" by simp
  have semi: "CHR '';'' \<notin> set (''/'' @ p)" using assms(4) by simp
  show ?thesis
    unfolding urlparse_path_def
    by (simp only: u1 u2 split_https Let_def prod.case n1 n2 n3 v b t1 t2 semi
          refl if_True if_False simp_thms)
qed

lemma path_pic: "urlparse_path ok ''https://host/path/pic.png'' = Inr ''/path/pic.png''"
  using path_of_host_url [of "''path/pic.png''" ok] by simp

lemma path_dir: "urlparse_path ok ''https://host/path/'' = Inr ''/path/''"
  using path_of_host_url [of "''path/''" ok] by simp

lemma base_pic: "basename ''/path/pic.png'' = ''pic.png''"
  by code_simp

lemma base_dir: "basename ''/path/'' = []"
  by code_simp

lemma filename_pic: "filename_of_url e ''https://host/path/pic.png'' = Inr ''pic.png''"
proof -
  have "suffix ''.png'' ''pic.png''" by code_simp
  then show ?thesis
    by (simp only: filename_of_url_def path_pic base_pic sum.case derive_filename_keeps_png)
qed

lemma filename_dir:
  "filename_of_url e ''https://host/path/'' = Inr (''image_'' @ str_int (hash e ''https://host/path/'') @ ''.png'')"
  by (simp only: filename_of_url_def path_dir base_dir sum.case derive_filename_synth [OF disjI1 [OF refl]])

lemma basename_trailing_slash: "basename (q @ ''/'') = []"
  by (simp add: basename_def)

lemma filename_of_url_synth:
  assumes "urlparse_path (netloc_ok e) url = Inr p"
    and "basename p = [] \<or> CHR ''.'' \<notin> set (basename p)"
  shows "filename_of_url e url = Inr (''image_'' @ str_int (hash e url) @ ''.png'')"
  using assms derive_filename_synth [of "basename p" e url]
  by (simp add: filename_of_url_def)

lemma filename_of_url_keeps:
  assumes "urlparse_path (netloc_ok e) url = Inr p" and "suffix ''.png'' (basename p)"
  shows "filename_of_url e url = Inr (basename p)"
  using assms derive_filename_keeps_png [of "basename p" e url]
  by (simp add: filename_of_url_def)

text \<open>
  C4. The URL \<open>https://host/path/pic.png\<close> gets the file name \<open>pic.png\<close>, as every URL
  does whose path has a base name ending with \<open>.png\<close>. A URL whose path has an empty base
  name (it ends with a slash, as \<open>https://host/path/\<close>) or a base name without a dot gets
  \<open>image_\<close>, the decimal hash of the URL and \<open>.png\<close>. Whenever a download succeeds, the
  file name returned is the one derived from the URL, is not empty and ends with \<open>.png\<close>.
\<close>

theorem filename_derivation:
  "filename_of_url e ''https://host/path/pic.png'' = Inr ''pic.png''
   \<and> filename_of_url e ''https://host/path/'' = Inr (''image_'' @ str_int (hash e ''https://host/path/'') @ ''.png'')
   \<and> (urlparse_path (netloc_ok e) url = Inr p \<and> suffix ''.png'' (basename p) \<longrightarrow>
        filename_of_url e url = Inr (basename p))
   \<and> (urlparse_path (netloc_ok e) url = Inr p \<and> (basename p = [] \<or> CHR ''.'' \<notin> set (basename p)) \<longrightarrow>
        filename_of_url e url = Inr (''image_'' @ str_int (hash e url) @ ''.png''))
   \<and> (urlparse_path (netloc_ok e) url = Inr (q @ ''/'') \<longrightarrow>
        filename_of_url e url = Inr (''image_'' @ str_int (hash e url) @ ''.png''))
   \<and> (fst (download_image e url save_dir w) = Some filename \<longrightarrow>
        filename_of_url e url = Inr filename \<and> filename \<noteq> [] \<and> suffix ''.png'' filename)"
proof -
  have c3: "urlparse_path (netloc_ok e) url = Inr p \<and> suffix ''.png'' (basename p) \<longrightarrow>
        filename_of_url e url = Inr (basename p)"
    using filename_of_url_keeps [of e url p] by blast
  have c4: "urlparse_path (netloc_ok e) url = Inr p \<and> (basename p = [] \<or> CHR ''.'' \<notin> set (basename p)) \<longrightarrow>
        filename_of_url e url = Inr (''image_'' @ str_int (hash e url) @ ''.png'')"
    using filename_of_url_synth [of e url p] by blast
  have c5: "urlparse_path (netloc_ok e) url = Inr (q @ ''/'') \<longrightarrow>
        filename_of_url e url = Inr (''image_'' @ str_int (hash e url) @ ''.png'')"
    using filename_of_url_synth [of e url "q @ ''/''"] basename_trailing_slash [of q] by blast
  have c6: "fst (download_image e url save_dir w) = Some filename \<longrightarrow>
        filename_of_url e url = Inr filename \<and> filename \<noteq> [] \<and> suffix ''.png'' filename"
    using download_image_Some [of e url save_dir w filename] filename_of_url_png [of e url filename]
    by blast
  from filename_pic [of e] filename_dir [of e] c3 c4 c5 c6 show ?thesis by (intro conjI)
qed

lemma fetch_ok:
  "try_ssl_options env_ok url ssl_options world0 =
     (Inr ''data'', world0\<lparr>requests := 1,
        trace := [Request url [(''timeout'', PyInt 30), (''verify'', PyBool True)]]\<rparr>)"
  by (simp add: ssl_options_def session_get_def bind_kwargs_def env_ok_def world0_def)

theorem filename_derivation_witness:
  "fst (download_image env_ok ''https://host/path/pic.png'' [''site'', ''downloaded_images''] world0) = Some ''pic.png''
   \<and> ''pic.png'' \<noteq> [] \<and> suffix ''.png'' ''pic.png''
   \<and> urlparse_path (netloc_ok env_ok) ''https://host/path/pic.png'' = Inr ''/path/pic.png''
   \<and> suffix ''.png'' (basename ''/path/pic.png'')
   \<and> filename_of_url env_ok ''https://host/path/pic.png'' = Inr (basename ''/path/pic.png'')
   \<and> urlparse_path (netloc_ok env_ok) ''https://host/gallery/view'' = Inr ''/gallery/view''
   \<and> (basename ''/gallery/view'' = [] \<or> CHR ''.'' \<notin> set (basename ''/gallery/view''))
   \<and> filename_of_url env_ok ''https://host/gallery/view'' = Inr ''image_7.png''
   \<and> urlparse_path (netloc_ok env_ok) ''https://host/gallery/'' = Inr (''/gallery'' @ ''/'')
   \<and> filename_of_url env_ok ''https://host/gallery/'' = Inr ''image_7.png''"
proof -
  let ?d = "[''site'', ''downloaded_images'']"
  have w: "writable env_ok (?d @ [''pic.png''])" by (simp add: env_ok_def)
  have h1: "fst (download_image env_ok ''https://host/path/pic.png'' ?d world0) = Some ''pic.png''"
    using download_image_ok [OF fetch_ok filename_pic w] by simp
  have h2: "urlparse_path (netloc_ok env_ok) ''https://host/path/pic.png'' = Inr ''/path/pic.png''"
    by (rule path_pic)
  have h3: "suffix ''.png'' (basename ''/path/pic.png'')" by code_simp
  have h4: "urlparse_path (netloc_ok env_ok) ''https://host/gallery/view'' = Inr ''/gallery/view''"
    using path_of_host_url [of "''gallery/view''" "netloc_ok env_ok"] by simp
  have h5: "basename ''/gallery/view'' = [] \<or> CHR ''.'' \<notin> set (basename ''/gallery/view'')"
    by code_simp
  have h6: "urlparse_path (netloc_ok env_ok) ''https://host/gallery/'' = Inr (''/gallery'' @ ''/'')"
    using path_of_host_url [of "''gallery/''" "netloc_ok env_ok"] by simp
  have s7: "str_int 7 = ''7''" by code_simp
  have s: "''image_'' @ str_int (hash env_ok u) @ ''.png'' = ''image_7.png''" for u
    by (simp add: env_ok_def s7)
  note t1 = filename_derivation [where e = env_ok and url = "''https://host/path/pic.png''"
      and p = "''/path/pic.png''" and save_dir = ?d and w = world0 and filename = "''pic.png''"]
  note t2 = filename_derivation [where e = env_ok and url = "''https://host/gallery/view''"
      and p = "''/gallery/view''"]
  note t3 = filename_derivation [where e = env_ok and url = "''https://host/gallery/''"
      and q = "''/gallery''"]
  from t1 h1 have c1: "''pic.png'' \<noteq> [] \<and> suffix ''.png'' ''pic.png''" by blast
  from t1 h2 h3 have c2: "filename_of_url env_ok ''https://host/path/pic.png'' = Inr (basename ''/path/pic.png'')"
    by blast
  from t2 h4 h5 have "filename_of_url env_ok ''https://host/gallery/view''
      = Inr (''image_'' @ str_int (hash env_ok ''https://host/gallery/view'') @ ''.png'')" by blast
  then have c3: "filename_of_url env_ok ''https://host/gallery/view'' = Inr ''image_7.png''"
    by (simp only: s)
  from t3 h6 have "filename_of_url env_ok ''https://host/gallery/''
      = Inr (''image_'' @ str_int (hash env_ok ''https://host/gallery/'') @ ''.png'')" by blast
  then have c4: "filename_of_url env_ok ''https://host/gallery/'' = Inr ''image_7.png''"
    by (simp only: s)
  from h1 c1 h2 h3 c2 h4 h5 c3 h6 c4 show ?thesis by (intro conjI) blast+
qed

text \<open>
  C10. The test of line 67 is case-sensitive: when the base name of the URL's path ends
  with a variant of \<open>.png\<close> in another case (\<open>.PNG\<close>, \<open>.Png\<close>, ...), the file name is the base
  name followed by a further \<open>.png\<close>, as \<open>c.PNG.png\<close> for \<open>c.PNG\<close>.
\<close>

theorem mixed_case_extension_appends_png:
  assumes "urlparse_path (netloc_ok e) url = Inr p" and "basename p = stem @ ext"
    and "lower ext = ''.png''" and "ext \<noteq> ''.png''"
  shows "filename_of_url e url = Inr (basename p @ ''.png'')"
  using assms variant_not_suffix [of ext stem] derive_filename_appends [of "basename p" e url]
  by (simp add: filename_of_url_def)

theorem mixed_case_extension_appends_png_witness:
  "urlparse_path (netloc_ok env_ok) ''https://host/c.PNG'' = Inr ''/c.PNG'' \<and> basename ''/c.PNG'' = ''c'' @ ''.PNG''
   \<and> lower ''.PNG'' = ''.png'' \<and> ''.PNG'' \<noteq> ''.png''
   \<and> filename_of_url env_ok ''https://host/c.PNG'' = Inr ''c.PNG.png''"
proof -
  have h1: "urlparse_path (netloc_ok env_ok) ''https://host/c.PNG'' = Inr ''/c.PNG''"
    using path_of_host_url [of "''c.PNG''" "netloc_ok env_ok"] by simp
  have h2: "basename ''/c.PNG'' = ''c'' @ ''.PNG''" by code_simp
  have h3: "lower ''.PNG'' = ''.png''" by code_simp
  have h4: "''.PNG'' \<noteq> ''.png''" by simp
  have b: "basename ''/c.PNG'' @ ''.png'' = ''c.PNG.png''" by code_simp
  from mixed_case_extension_appends_png [OF h1 h2 h3 h4] b h1 h2 h3 h4
  show ?thesis by simp
qed

section \<open>Extraction\<close>

lemma no_img_prefix:
  assumes "simple_piece (Text (c # cs))"
  shows "\<not> prefix ''<img'' ((c # cs) @ rest)"
proof
  assume "prefix ''<img'' ((c # cs) @ rest)"
  then consider "prefix ''<img'' (c # cs)"
    | us where "''<img'' = (c # cs) @ us" "us \<noteq> []"
    by (auto simp: prefix_append) (metis append_Nil2 prefix_order.order_refl)
  then show False
  proof cases
    case 1
    then have "sublist ''<img'' (c # cs)" by (rule prefix_imp_sublist)
    with assms show False by simp
  next
    case 2
    then have "c # cs = ''<'' \<or> c # cs = ''<i'' \<or> c # cs = ''<im''"
      by (auto simp: Cons_eq_append_conv)
    with assms show False by auto
  qed
qed

lemma simple_text_tl: "simple_piece (Text (c # cs)) \<Longrightarrow> simple_piece (Text cs)"
  by (auto simp: sublist_Cons_right suffix_ConsI)

lemma findall_skips_text:
  "simple_piece (Text s) \<Longrightarrow> findall_img (s @ rest) = findall_img rest"
proof (induction s)
  case Nil
  show ?case by simp
next
  case (Cons c cs)
  have np: "\<not> prefix ''<img'' (c # (cs @ rest))"
    using no_img_prefix [OF Cons.prems, of rest] unfolding append_Cons .
  have "match_img (c # (cs @ rest)) = None"
    by (simp only: match_img_def np if_False)
  then have "findall_img (c # (cs @ rest)) = findall_img (cs @ rest)"
    by (simp only: findall_img.simps option.case)
  with Cons.IH [OF simple_text_tl [OF Cons.prems]] show ?case
    by (simp only: append_Cons)
qed

lemma match_after_img_found:
  assumes "prefix ''src='' (drop n t)" and "match_src_value (drop (n + 4) t) = Some r"
    and "\<And>i. n < i \<Longrightarrow> i \<le> N \<Longrightarrow> \<not> prefix ''src='' (drop i t)"
    and "0 < n"
  shows "n \<le> j \<Longrightarrow> j \<le> N \<Longrightarrow> match_after_img t j = Some r"
proof (induction j)
  case 0
  with assms(4) show ?case by simp
next
  case (Suc j)
  show ?case
  proof (cases "Suc j = n")
    case True
    then have n: "n = Suc j" by simp
    from assms(1,2) show ?thesis unfolding n by simp
  next
    case False
    with Suc.prems have "n < Suc j" "n \<le> j" "j \<le> N" by simp_all
    with assms(3) [of "Suc j"] Suc.prems(2) Suc.IH show ?thesis by simp
  qed
qed

lemma takeWhile_stops:
  "\<not> P y \<Longrightarrow> length (takeWhile P (xs @ y # ys)) \<le> length xs"
  by (induction xs) auto

lemma no_src_inside:
  assumes "\<not> sublist ''src='' x"
  shows "\<not> prefix ''src='' (drop i x @ CHR ''>'' # rest)"
proof
  assume "prefix ''src='' (drop i x @ CHR ''>'' # rest)"
  then consider "prefix ''src='' (drop i x)"
    | us where "''src='' = drop i x @ us" "prefix us (CHR ''>'' # rest)" "us \<noteq> []"
    by (auto simp: prefix_append) (metis append_Nil2 prefix_order.order_refl)
  then show False
  proof cases
    case 1
    then have "sublist ''src='' (drop i x)" by (rule prefix_imp_sublist)
    then have "sublist ''src='' x"
      by (metis sublist_order.order.trans sublist_drop)
    with assms show False by simp
  next
    case 2
    from 2(2,3) obtain us' where "us = CHR ''>'' # us'" by (cases us) auto
    with 2(1) have "CHR ''>'' \<in> set ''src=''" by (metis in_set_conv_decomp)
    then show False by simp
  qed
qed

lemma match_img_tag:
  assumes "simple_piece (Img before q1 v q2 after)"
  shows "match_img (render_piece (Img before q1 v q2 after) @ rest) = Some (v, rest)"
proof -
  define x where "x = v @ [q2] @ after"
  define t where "t = before @ ''src='' @ [q1] @ x @ CHR ''>'' # rest"
  define n where "n = length before"
  define N where "N = n + 5 + length x"
  from assms have b_ne: "before \<noteq> []" and b_gt: "\<And>c. c \<in> set before \<Longrightarrow> c \<noteq> CHR ''>''"
    and q1: "is_quote q1" and q2: "is_quote q2" and v_ne: "v \<noteq> []"
    and v_nq: "\<And>c. c \<in> set v \<Longrightarrow> \<not> is_quote c"
    and a_gt: "\<And>c. c \<in> set after \<Longrightarrow> c \<noteq> CHR ''>''"
    and nosrc: "\<not> sublist ''src='' x"
    by (auto simp: x_def filter_empty_conv)
  have npos: "0 < n" using b_ne by (simp add: n_def)
  have dn: "drop n t = ''src='' @ [q1] @ x @ CHR ''>'' # rest"
    by (simp add: t_def n_def)
  have p0: "prefix ''src='' (drop n t)"
    unfolding dn by simp
  have d4: "drop (n + 4) t = q1 # v @ q2 # after @ CHR ''>'' # rest"
    by (simp add: t_def n_def x_def)
  have tw: "takeWhile (\<lambda>c. \<not> is_quote c) (v @ q2 # after @ CHR ''>'' # rest) = v"
    using takeWhile_append2 [of v "\<lambda>c. \<not> is_quote c" "q2 # after @ CHR ''>'' # rest"] v_nq q2
    by simp
  have dw: "dropWhile (\<lambda>c. \<not> is_quote c) (v @ q2 # after @ CHR ''>'' # rest) = q2 # after @ CHR ''>'' # rest"
    using dropWhile_append2 [of v "\<lambda>c. \<not> is_quote c" "q2 # after @ CHR ''>'' # rest"] v_nq q2
    by simp
  have dw2: "dropWhile (\<lambda>c. c \<noteq> CHR ''>'') (after @ CHR ''>'' # rest) = CHR ''>'' # rest"
    using dropWhile_append2 [of after "\<lambda>c. c \<noteq> CHR ''>''" "CHR ''>'' # rest"] a_gt
    by simp
  have m0: "match_src_value (drop (n + 4) t) = Some (v, rest)"
    unfolding d4 using q1 v_ne by (simp add: match_src_value_def tw dw dw2)
  have far: "\<not> prefix ''src='' (drop i t)" if "n < i" "i \<le> N" for i
  proof -
    from that obtain d where i: "i = n + d" and d: "0 < d" "d \<le> 5 + length x"
      by (metis N_def add.assoc less_imp_add_positive nat_add_left_cancel_le)
    have di: "drop i t = drop d (''src='' @ [q1] @ x @ CHR ''>'' # rest)"
      by (simp add: i t_def n_def)
    from d consider "d = 1" | "d = 2" | "d = 3" | "d = 4" | "5 \<le> d" by linarith
    then show ?thesis
    proof cases
      case 1
      then show ?thesis unfolding di by simp
    next
      case 2
      then show ?thesis unfolding di by simp
    next
      case 3
      then show ?thesis unfolding di by simp
    next
      case 4
      with q1 show ?thesis unfolding di by (auto simp: is_quote_def)
    next
      case 5
      then obtain d' where d': "d = 5 + d'" using le_Suc_ex by blast
      with d have "d' \<le> length x" by simp
      moreover have "d = Suc (Suc (Suc (Suc (Suc d'))))" using d' by simp
      ultimately have "drop d (''src='' @ [q1] @ x @ CHR ''>'' # rest) = drop d' x @ CHR ''>'' # rest"
        by simp
      with no_src_inside [OF nosrc, of d' rest] show ?thesis unfolding di by simp
    qed
  qed
  let ?k = "length (takeWhile (\<lambda>c. c \<noteq> CHR ''>'') t)"
  have "takeWhile (\<lambda>c. c \<noteq> CHR ''>'') t
          = before @ takeWhile (\<lambda>c. c \<noteq> CHR ''>'') (''src='' @ [q1] @ x @ CHR ''>'' # rest)"
    unfolding t_def using b_gt by (rule takeWhile_append2)
  then have lower: "n \<le> ?k" by (simp add: n_def)
  have "t = (before @ ''src='' @ [q1] @ x) @ CHR ''>'' # rest" by (simp add: t_def)
  then have "?k \<le> length (before @ ''src='' @ [q1] @ x)"
    using takeWhile_stops [of "\<lambda>c. c \<noteq> CHR ''>''" "CHR ''>''" "before @ ''src='' @ [q1] @ x" rest]
    by simp
  then have upper: "?k \<le> N" by (simp add: N_def n_def)
  have found: "match_after_img t ?k = Some (v, rest)"
    using p0 m0 far npos lower upper by (rule match_after_img_found)
  have "render_piece (Img before q1 v q2 after) @ rest = ''<img'' @ t"
    by (simp add: t_def x_def)
  moreover have "match_img (''<img'' @ t) = match_after_img t ?k"
    by (simp add: match_img_def)
  ultimately show ?thesis using found by simp
qed

lemma findall_takes_tag:
  assumes "simple_piece (Img before q1 v q2 after)"
  shows "findall_img (render_piece (Img before q1 v q2 after) @ rest) = v # findall_img rest"
proof -
  obtain cs where cs: "render_piece (Img before q1 v q2 after) @ rest = CHR ''<'' # cs"
    by simp
  from match_img_tag [OF assms, of rest] have "match_img (CHR ''<'' # cs) = Some (v, rest)"
    unfolding cs .
  then have "findall_img (CHR ''<'' # cs) = v # findall_img rest"
    by (simp only: findall_img.simps option.case prod.case)
  then show ?thesis unfolding cs .
qed

lemma findall_render:
  "list_all simple_piece ps \<Longrightarrow> findall_img (render ps @ rest) = src_values ps @ findall_img rest"
proof (induction ps)
  case Nil
  show ?case by (simp add: render_def src_values_def)
next
  case (Cons p ps)
  then have sp: "simple_piece p" and IH: "findall_img (render ps @ rest) = src_values ps @ findall_img rest"
    by simp_all
  have r: "render (p # ps) @ rest = render_piece p @ (render ps @ rest)"
    by (simp add: render_def)
  show ?case
  proof (cases p)
    case (Text s)
    with sp findall_skips_text [of s "render ps @ rest"] IH r show ?thesis
      by (simp add: src_values_def)
  next
    case (Img before q1 v q2 after)
    with sp findall_takes_tag [of before q1 v q2 after "render ps @ rest"] IH r show ?thesis
      by (simp add: src_values_def)
  qed
qed

lemma extract_render:
  assumes "list_all simple_piece ps"
  shows "extract_from_text (render ps) =
     filter (\<lambda>url. suffix ''.png'' url \<or> sublist ''png'' (lower url)) (src_values ps)"
  using findall_render [OF assms, of "[]"]
  by (simp add: extract_from_text_def png_loop_filter)

lemma doc_pieces_simple: "list_all simple_piece doc_pieces"
  by code_simp

lemma doc_pieces_png:
  "filter (\<lambda>url. suffix ''.png'' url \<or> sublist ''png'' (lower url)) (src_values doc_pieces)
     = [''a.png'', ''c.PNG'']"
  by code_simp

lemma extract_abc:
  "extract_from_text ''<img src=\"a.png\"><img src=\"b.jpg\"><img src=\"c.PNG\">'' = [''a.png'', ''c.PNG'']"
  by code_simp

lemma extract_dup:
  "extract_from_text ''<img src=\"a.png\"><p>x</p><img src=\"a.png\">'' = [''a.png'', ''a.png'']"
  by code_simp

lemma findall_data_src: "findall_img ''<img src=\"a.png\" data-src=\"b.jpg\">'' = [''b.jpg'']"
  by code_simp

lemma extract_data_src_lost: "extract_from_text ''<img src=\"a.png\" data-src=\"b.jpg\">'' = []"
  by code_simp

lemma extract_data_src_taken: "extract_from_text ''<img src=\"x.jpg\" data-src=\"y.png\">'' = [''y.png'']"
  by code_simp

lemma extract_other_tag: "extract_from_text ''<imgx src=\"a.png\">'' = [''a.png'']"
  by code_simp

text \<open>
  C2. The claim that the extractor returns the \<open>src\<close> values of the image tags fails on the
  code: the pattern of line 90 lets \<open>[^>]+\<close> run over the attributes, so in a tag with a
  later attribute whose name ends with \<open>src\<close> it captures that attribute's value and the
  \<open>src\<close> value is lost, and it accepts any tag name that begins with \<open>img\<close>. For the tag
  with \<open>src="a.png"\<close> and \<open>data-src="b.jpg"\<close> the capture is \<open>b.jpg\<close> and the extractor
  returns nothing; with \<open>src="x.jpg"\<close> and \<open>data-src="y.png"\<close> it returns \<open>y.png\<close>. The
  example of the specification, three tags with only a \<open>src\<close> attribute, comes out as stated.
\<close>

theorem extract_takes_last_src_like_attribute:
  "findall_img ''<img src=\"a.png\" data-src=\"b.jpg\">'' = [''b.jpg'']
   \<and> extract_from_text ''<img src=\"a.png\" data-src=\"b.jpg\">'' = []
   \<and> extract_from_text ''<img src=\"x.jpg\" data-src=\"y.png\">'' = [''y.png'']
   \<and> extract_from_text ''<imgx src=\"a.png\">'' = [''a.png'']
   \<and> extract_from_text ''<img src=\"a.png\"><img src=\"b.jpg\"><img src=\"c.PNG\">'' = [''a.png'', ''c.PNG'']"
  using findall_data_src extract_data_src_lost extract_data_src_taken extract_other_tag extract_abc
  by (intro conjI)

text \<open>The document \<open>doc_pieces\<close>, made of simple pieces, gives the \<open>src\<close> values that pass the test.\<close>

lemma extract_doc_pieces: "extract_from_text (render doc_pieces) = [''a.png'', ''c.PNG'']"
  using extract_render [OF doc_pieces_simple] doc_pieces_png by (simp only:)

section \<open>The download loop\<close>

lemma dict_set_map_fst:
  "map fst (dict_set m k v) = (if k \<in> fst ` set m then map fst m else map fst m @ [k])"
proof (induction m)
  case Nil
  show ?case by simp
next
  case (Cons p m)
  obtain k' v' where p: "p = (k', v')" by (cases p)
  show ?case
  proof (cases "k' = k")
    case True
    with p show ?thesis by simp
  next
    case False
    with p Cons.IH show ?thesis by simp
  qed
qed

lemma dict_set_keys:
  "fst ` set (dict_set m k v) = insert k (fst ` set m)"
proof -
  have "set (map fst (dict_set m k v)) = insert k (set (map fst m))"
    by (simp only: dict_set_map_fst) auto
  then show ?thesis by simp
qed

lemma dict_set_distinct:
  "distinct (map fst m) \<Longrightarrow> distinct (map fst (dict_set m k v))"
  by (simp add: dict_set_map_fst)

lemma dict_set_same: "map_of (dict_set m k v) k = Some v"
  by (induction m) auto

lemma dict_set_other: "k' \<noteq> k \<Longrightarrow> map_of (dict_set m k v) k' = map_of m k'"
  by (induction m) auto

lemma dict_set_subset: "set (dict_set m k v) \<subseteq> insert (k, v) (set m)"
  by (induction m) (auto split: if_splits)

lemma download_loop_append:
  "download_loop e d (xs @ ys) m w =
     (case download_loop e d xs m w of (m1, w1) \<Rightarrow> download_loop e d ys m1 w1)"
  by (induction xs arbitrary: m w) (auto split: prod.splits)

lemma download_loop_keys:
  "fst ` set (fst (download_loop e d urls m w)) = fst ` set m \<union> set urls"
proof (induction urls arbitrary: m w)
  case Nil
  then show ?case by simp
next
  case (Cons url urls)
  obtain f w1 where di: "download_image e url d w = (f, w1)" by (cases "download_image e url d w")
  have "fst ` set (fst (download_loop e d urls (dict_set m url f) (sleep 500 w1)))
          = insert url (fst ` set m) \<union> set urls"
    by (simp only: Cons.IH dict_set_keys)
  with di show ?case by simp
qed

lemma download_loop_distinct:
  "distinct (map fst m) \<Longrightarrow> distinct (map fst (fst (download_loop e d urls m w)))"
proof (induction urls arbitrary: m w)
  case Nil
  then show ?case by simp
next
  case (Cons url urls)
  obtain f w1 where di: "download_image e url d w = (f, w1)" by (cases "download_image e url d w")
  from Cons.IH [OF dict_set_distinct [OF Cons.prems]] di show ?case by simp
qed

lemma download_loop_untouched:
  "k \<notin> set urls \<Longrightarrow> map_of (fst (download_loop e d urls m w)) k = map_of m k"
proof (induction urls arbitrary: m w)
  case Nil
  then show ?case by simp
next
  case (Cons url urls)
  obtain f w1 where di: "download_image e url d w = (f, w1)" by (cases "download_image e url d w")
  from Cons.prems have ne: "k \<noteq> url" and "k \<notin> set urls" by auto
  with Cons.IH di dict_set_other [OF ne] show ?case by simp
qed

lemma download_image_value:
  "filename_or_none (fst (download_image e url d w))"
proof (cases "fst (download_image e url d w)")
  case None
  then show ?thesis by (simp add: filename_or_none_def)
next
  case (Some f)
  from download_image_Some [OF this] have "filename_of_url e url = Inr f" by blast
  from filename_of_url_png [OF this] Some show ?thesis by (simp add: filename_or_none_def)
qed

lemma download_loop_values:
  "list_all filename_or_none (map snd m) \<Longrightarrow>
   list_all filename_or_none (map snd (fst (download_loop e d urls m w)))"
proof (induction urls arbitrary: m w)
  case Nil
  then show ?case by simp
next
  case (Cons url urls)
  obtain f w1 where di: "download_image e url d w = (f, w1)" by (cases "download_image e url d w")
  with download_image_value [of e url d w] have "filename_or_none f" by simp
  with Cons.prems dict_set_subset [of m url f]
  have "list_all filename_or_none (map snd (dict_set m url f))"
    by (fastforce simp: list_all_iff)
  from Cons.IH [OF this] di show ?case by simp
qed

text \<open>
  C8. The mapping built by the download loop has exactly the input URLs as keys, each
  once: its length is the number of different URLs (the length of the list when no URL
  is repeated), and every value is \<open>None\<close> or a file name.
\<close>

theorem mapping_has_one_entry_per_url:
  "distinct (map fst (fst (download_loop e d urls [] w)))
   \<and> set (map fst (fst (download_loop e d urls [] w))) = set urls
   \<and> length (fst (download_loop e d urls [] w)) = card (set urls)
   \<and> list_all filename_or_none (map snd (fst (download_loop e d urls [] w)))
   \<and> (distinct urls \<longrightarrow> length (fst (download_loop e d urls [] w)) = length urls)"
proof -
  let ?m = "fst (download_loop e d urls [] w)"
  have d: "distinct (map fst ?m)" by (rule download_loop_distinct) simp
  have s: "set (map fst ?m) = set urls" using download_loop_keys [of e d urls "[]" w] by simp
  from distinct_card [OF d] s have l: "length ?m = card (set urls)" by simp
  have v: "list_all filename_or_none (map snd ?m)" by (rule download_loop_values) simp
  from d s l v show ?thesis by (simp add: distinct_card)
qed

theorem mapping_has_one_entry_per_url_witness:
  "distinct [''https://host/a.png'', ''https://host/b.png'']
   \<and> length (fst (download_loop env_ok [''site'', ''downloaded_images'']
        [''https://host/a.png'', ''https://host/b.png''] [] world0)) = 2"
proof -
  have h: "distinct [''https://host/a.png'', ''https://host/b.png'']" by simp
  from mapping_has_one_entry_per_url [of env_ok "[''site'', ''downloaded_images'']"
      "[''https://host/a.png'', ''https://host/b.png'']" world0] h
  show ?thesis by simp
qed

lemma fetch_failure_gives_none:
  "fst (try_ssl_options e url ssl_options w) = Inl err \<Longrightarrow> fst (download_image e url d w) = None"
  by (cases "try_ssl_options e url ssl_options w") (simp add: download_image_def)

text \<open>
  C3. When every configuration fails for a URL, \<open>download_image\<close> returns \<open>None\<close>, the
  loop stores \<open>None\<close> under the URL and goes on with the remaining URLs from there; every
  URL of the list is a key of the final mapping, and the failed URL still maps to \<open>None\<close>
  at the end unless it occurs again later in the list.
\<close>

theorem failed_download_is_recorded_and_loop_continues:
  assumes "download_loop e d pre [] w = (m1, w1)"
    and "fst (try_ssl_options e url ssl_options w1) = Inl err"
  shows "fst (download_image e url d w1) = None
     \<and> download_loop e d (pre @ url # post) [] w =
         download_loop e d post (dict_set m1 url None) (sleep 500 (snd (download_image e url d w1)))
     \<and> set (map fst (fst (download_loop e d (pre @ url # post) [] w))) = set (pre @ url # post)
     \<and> (url \<notin> set post \<longrightarrow>
          map_of (fst (download_loop e d (pre @ url # post) [] w)) url = Some None)"
proof -
  have none: "fst (download_image e url d w1) = None"
    using assms(2) by (rule fetch_failure_gives_none)
  obtain f w2 where di: "download_image e url d w1 = (f, w2)"
    by (cases "download_image e url d w1")
  with none have f: "f = None" by simp
  have step: "download_loop e d (pre @ url # post) [] w =
         download_loop e d post (dict_set m1 url None) (sleep 500 (snd (download_image e url d w1)))"
    using assms(1) di f by (simp add: download_loop_append)
  have keys: "set (map fst (fst (download_loop e d (pre @ url # post) [] w))) = set (pre @ url # post)"
    using download_loop_keys [of e d "pre @ url # post" "[]" w] by simp
  have "map_of (fst (download_loop e d (pre @ url # post) [] w)) url = Some None"
    if "url \<notin> set post"
    using download_loop_untouched [OF that] dict_set_same [of m1 url None] step by simp
  with none step keys show ?thesis by blast
qed

lemma fetch_down:
  "fst (try_ssl_options env_down url ssl_options w) = Inl TypeError"
  by (simp add: ssl_options_def session_get_def bind_kwargs_def env_down_def sleep_def)

theorem failed_download_is_recorded_and_loop_continues_witness:
  "download_loop env_down [''site'', ''downloaded_images''] [] [] world0 = ([], world0)
   \<and> fst (try_ssl_options env_down ''https://host/a.png'' ssl_options world0) = Inl TypeError
   \<and> ''https://host/a.png'' \<notin> set [''https://host/b.png'']
   \<and> map_of (fst (download_loop env_down [''site'', ''downloaded_images'']
         [''https://host/a.png'', ''https://host/b.png''] [] world0)) ''https://host/a.png'' = Some None
   \<and> set (map fst (fst (download_loop env_down [''site'', ''downloaded_images'']
         [''https://host/a.png'', ''https://host/b.png''] [] world0)))
       = set [''https://host/a.png'', ''https://host/b.png'']"
proof -
  have h1: "download_loop env_down [''site'', ''downloaded_images''] [] [] world0 = ([], world0)" by simp
  have h2: "fst (try_ssl_options env_down ''https://host/a.png'' ssl_options world0) = Inl TypeError"
    by (rule fetch_down)
  have h3: "''https://host/a.png'' \<notin> set [''https://host/b.png'']" by simp
  note t = failed_download_is_recorded_and_loop_continues [OF h1 h2, of "[''https://host/b.png'']", unfolded append_Nil]
  from t h1 h2 h3 show ?thesis by blast
qed

section \<open>The driver\<close>

lemma session_get_frame:
  "files (snd (session_get e url c w)) = files w
   \<and> filter (touches p) (trace (snd (session_get e url c w))) = filter (touches p) (trace w)"
  by (simp add: session_get_def split: sum.splits)

lemma try_ssl_options_frame:
  "files (snd (try_ssl_options e url opts w)) = files w
   \<and> filter (touches p) (trace (snd (try_ssl_options e url opts w))) = filter (touches p) (trace w)"
proof (induction opts arbitrary: w)
  case Nil
  show ?case by simp
next
  case (Cons c opts)
  obtain r w1 where sg: "session_get e url c w = (r, w1)" by (cases "session_get e url c w")
  with session_get_frame [of e url c w p]
  have f1: "files w1 = files w" and t1: "filter (touches p) (trace w1) = filter (touches p) (trace w)"
    by simp_all
  show ?case
  proof (cases r)
    case (Inr body)
    with sg f1 t1 show ?thesis by simp
  next
    case (Inl err)
    show ?thesis
    proof (cases "opts = []")
      case True
      with Inl sg f1 t1 show ?thesis by simp
    next
      case False
      with Inl sg Cons.IH [of "sleep 1000 w1"] f1 t1 show ?thesis by (simp add: sleep_def)
    qed
  qed
qed

lemma download_image_frame:
  assumes "\<And>f. p \<noteq> d @ [f]"
  shows "files (snd (download_image e url d w)) p = files w p
   \<and> filter (touches p) (trace (snd (download_image e url d w))) = filter (touches p) (trace w)"
proof -
  obtain r w1 where t: "try_ssl_options e url ssl_options w = (r, w1)"
    by (cases "try_ssl_options e url ssl_options w")
  with try_ssl_options_frame [of e url ssl_options w p]
  have f1: "files w1 = files w" and t1: "filter (touches p) (trace w1) = filter (touches p) (trace w)"
    by simp_all
  from assms have ne: "\<And>f. d @ [f] \<noteq> p" by metis
  show ?thesis
    using t f1 t1 ne
    by (auto simp: download_image_def Let_def write_file_def split: sum.splits)
qed

lemma download_loop_frame:
  assumes "\<And>f. p \<noteq> d @ [f]"
  shows "files (snd (download_loop e d urls m w)) p = files w p
   \<and> filter (touches p) (trace (snd (download_loop e d urls m w))) = filter (touches p) (trace w)"
proof (induction urls arbitrary: m w)
  case Nil
  show ?case by simp
next
  case (Cons url urls)
  obtain f w1 where di: "download_image e url d w = (f, w1)" by (cases "download_image e url d w")
  with download_image_frame [OF assms, of e url w]
  have "files w1 p = files w p" and "filter (touches p) (trace w1) = filter (touches p) (trace w)"
    by simp_all
  with Cons.IH [of "dict_set m url f" "sleep 500 w1"] di show ?case
    by (simp add: sleep_def)
qed

lemma backup_path:
  "with_suffix (cd @ [''index.html'']) ''.html.backup'' = Inr (cd @ [''index.html'' @ ''.backup''])"
proof -
  have "path_suffix ''index.html'' = ''.html''" by code_simp
  then show ?thesis by (simp add: with_suffix_def)
qed

lemma download_dir_disjoint:
  "cd @ [''index.html''] \<noteq> (cd @ [''downloaded_images'']) @ [f]"
  "cd @ [''index.html.backup''] \<noteq> (cd @ [''downloaded_images'']) @ [f]"
  by simp_all

lemma main_after_downloads:
  assumes "files w (current_dir e @ [''index.html'']) = Some content"
    and "download_loop e (current_dir e @ [''downloaded_images'']) (extract_from_text content) [] w = (m, w1)"
  shows "main e w =
     (if success_count m > 0 then replace_image_urls e (current_dir e @ [''index.html'']) m w1
      else (None, w1))"
proof (cases "extract_from_text content = []")
  case True
  with assms(2) have "m = []" and "w1 = w" by simp_all
  with True assms(1) show ?thesis
    by (simp add: main_def extract_image_urls_def success_count_def)
next
  case False
  with assms show ?thesis
    by (simp add: main_def extract_image_urls_def)
qed

lemma replace_image_urls_steps:
  assumes "files w1 (cd @ [''index.html'']) = Some content"
    and "rename_replaces e \<or> files w1 (cd @ [''index.html.backup'']) = None"
  shows "replace_image_urls e (cd @ [''index.html'']) m w1 =
     (if writable e (cd @ [''index.html''])
      then (None, write_file (cd @ [''index.html'']) (replace_loop m content)
              (w1\<lparr>files := ((files w1)(cd @ [''index.html''] := None))(cd @ [''index.html.backup''] \<mapsto> content),
                  trace := trace w1 @ [Rename (cd @ [''index.html'']) (cd @ [''index.html.backup''])]\<rparr>))
      else (Some OSError,
              w1\<lparr>files := ((files w1)(cd @ [''index.html''] := None))(cd @ [''index.html.backup''] \<mapsto> content),
                  trace := trace w1 @ [Rename (cd @ [''index.html'']) (cd @ [''index.html.backup''])]\<rparr>))"
  using assms backup_path [of cd]
  by (auto simp: replace_image_urls_def rename_def Let_def)


lemma download_loop_single:
  "fst (download_loop e d [url] [] w) = [(url, fst (download_image e url d w))]"
  by (simp split: prod.splits)

lemma extract_doc_one: "extract_from_text doc_one = [''https://host/a.png'']"
  by code_simp


lemma mapping_down:
  "fst (download_loop env_down d (extract_from_text doc_one) [] w) = [(''https://host/a.png'', None)]"
  using fetch_failure_gives_none [OF fetch_down [of "''https://host/a.png''" w], of d]
  by (simp only: extract_doc_one download_loop_single)



text \<open>
  C6. When no value of the mapping is a file name, \<open>main\<close> ends in the state the download
  loop left: the document still has its content, the backup path holds what it held
  before, and no write or rename on either path has been added to the trace.
\<close>

theorem zero_successes_leave_document_untouched:
  assumes "files w (current_dir e @ [''index.html'']) = Some content"
    and "download_loop e (current_dir e @ [''downloaded_images'']) (extract_from_text content) [] w = (m, w1)"
    and "success_count m = 0"
  shows "main e w = (None, w1)
     \<and> files w1 (current_dir e @ [''index.html'']) = Some content
     \<and> files w1 (current_dir e @ [''index.html.backup'']) = files w (current_dir e @ [''index.html.backup''])
     \<and> filter (touches (current_dir e @ [''index.html''])) (trace w1)
         = filter (touches (current_dir e @ [''index.html''])) (trace w)
     \<and> filter (touches (current_dir e @ [''index.html.backup''])) (trace w1)
         = filter (touches (current_dir e @ [''index.html.backup''])) (trace w)"
proof -
  let ?d = "current_dir e @ [''downloaded_images'']"
  have m: "main e w = (None, w1)"
    using main_after_downloads [OF assms(1,2)] assms(3) by simp
  have h: "files w1 (current_dir e @ [''index.html'']) = files w (current_dir e @ [''index.html''])
     \<and> filter (touches (current_dir e @ [''index.html''])) (trace w1)
         = filter (touches (current_dir e @ [''index.html''])) (trace w)"
    using download_loop_frame [of "current_dir e @ [''index.html'']" ?d e "extract_from_text content" "[]" w]
      download_dir_disjoint(1) assms(2) by simp
  have b: "files w1 (current_dir e @ [''index.html.backup'']) = files w (current_dir e @ [''index.html.backup''])
     \<and> filter (touches (current_dir e @ [''index.html.backup''])) (trace w1)
         = filter (touches (current_dir e @ [''index.html.backup''])) (trace w)"
    using download_loop_frame [of "current_dir e @ [''index.html.backup'']" ?d e "extract_from_text content" "[]" w]
      download_dir_disjoint(2) assms(2) by simp
  from m h b assms(1) show ?thesis by simp
qed

theorem zero_successes_leave_document_untouched_witness:
  "files (world_doc doc_one) (current_dir env_down @ [''index.html'']) = Some doc_one
   \<and> success_count (fst (download_loop env_down (current_dir env_down @ [''downloaded_images''])
         (extract_from_text doc_one) [] (world_doc doc_one))) = 0
   \<and> fst (main env_down (world_doc doc_one)) = None
   \<and> files (snd (main env_down (world_doc doc_one))) (current_dir env_down @ [''index.html'']) = Some doc_one
   \<and> files (snd (main env_down (world_doc doc_one))) (current_dir env_down @ [''index.html.backup'']) = None"
proof -
  let ?w = "world_doc doc_one"
  let ?d = "current_dir env_down @ [''downloaded_images'']"
  let ?r = "download_loop env_down ?d (extract_from_text doc_one) [] ?w"
  have h1: "files ?w (current_dir env_down @ [''index.html'']) = Some doc_one"
    by (simp add: world_doc_def env_down_def)
  have h2: "?r = (fst ?r, snd ?r)" by simp
  have h3: "success_count (fst ?r) = 0"
    by (simp only: mapping_down) (simp add: success_count_def)
  have b0: "files ?w (current_dir env_down @ [''index.html.backup'']) = None"
    by (simp add: world_doc_def env_down_def)
  from zero_successes_leave_document_untouched [OF h1 h2 h3] h1 h3 b0
  show ?thesis by simp
qed






section \<open>The fallback sequence\<close>

text \<open>
  C1. What the loop over \<open>ssl_options\<close> does for every URL: one request with
  verification and the timeout of 30 seconds; on an exception a sleep of one second and
  one request without verification; on an exception again a sleep of one second and the
  third call, which raises \<open>TypeError\<close> before any request is made, because \<open>timeout\<close>
  is passed both as a keyword and in the unpacked dictionary. So no request with the
  timeout of 60 seconds is ever made: against a server that would answer exactly that
  request, the download fails after two requests.
\<close>

theorem third_configuration_raises_type_error:
  "try_ssl_options e url ssl_options w =
     (let kw1 = [(''timeout'', PyInt 30), (''verify'', PyBool True)];
          kw2 = [(''timeout'', PyInt 30), (''verify'', PyBool False)];
          w1 = w\<lparr>requests := Suc (requests w), trace := trace w @ [Request url kw1]\<rparr>;
          w2 = w\<lparr>requests := Suc (Suc (requests w)),
                 trace := trace w @ [Request url kw1, Sleep 1000, Request url kw2]\<rparr>
      in case http_get e (requests w) url kw1 of
           Inr body \<Rightarrow> (Inr body, w1)
         | Inl err1 \<Rightarrow>
             (case http_get e (Suc (requests w)) url kw2 of
                Inr body \<Rightarrow> (Inr body, w2)
              | Inl err2 \<Rightarrow> (Inl TypeError, w2\<lparr>trace := trace w2 @ [Sleep 1000]\<rparr>)))
   \<and> session_get e url [(''verify'', PyBool True), (''timeout'', PyInt 60)] w = (Inl TypeError, w)
   \<and> http_get env_slow 2 ''https://host/a.png'' [(''verify'', PyBool True), (''timeout'', PyInt 60)] = Inr ''data''
   \<and> try_ssl_options env_slow ''https://host/a.png'' ssl_options world0 =
        (Inl TypeError, world0\<lparr>requests := 2,
           trace := [Request ''https://host/a.png'' [(''timeout'', PyInt 30), (''verify'', PyBool True)],
                     Sleep 1000,
                     Request ''https://host/a.png'' [(''timeout'', PyInt 30), (''verify'', PyBool False)],
                     Sleep 1000]\<rparr>)
   \<and> fst (download_image env_slow ''https://host/a.png'' [''site'', ''downloaded_images''] world0) = None"
proof -
  have a: "try_ssl_options e url ssl_options w =
     (let kw1 = [(''timeout'', PyInt 30), (''verify'', PyBool True)];
          kw2 = [(''timeout'', PyInt 30), (''verify'', PyBool False)];
          w1 = w\<lparr>requests := Suc (requests w), trace := trace w @ [Request url kw1]\<rparr>;
          w2 = w\<lparr>requests := Suc (Suc (requests w)),
                 trace := trace w @ [Request url kw1, Sleep 1000, Request url kw2]\<rparr>
      in case http_get e (requests w) url kw1 of
           Inr body \<Rightarrow> (Inr body, w1)
         | Inl err1 \<Rightarrow>
             (case http_get e (Suc (requests w)) url kw2 of
                Inr body \<Rightarrow> (Inr body, w2)
              | Inl err2 \<Rightarrow> (Inl TypeError, w2\<lparr>trace := trace w2 @ [Sleep 1000]\<rparr>)))"
    by (simp add: ssl_options_def session_get_def bind_kwargs_def sleep_def Let_def split: sum.splits)
  have b: "session_get e url [(''verify'', PyBool True), (''timeout'', PyInt 60)] w = (Inl TypeError, w)"
    by (simp add: session_get_def bind_kwargs_def)
  have c: "http_get env_slow 2 ''https://host/a.png'' [(''verify'', PyBool True), (''timeout'', PyInt 60)] = Inr ''data''"
    by (simp add: env_slow_def)
  have d: "try_ssl_options env_slow ''https://host/a.png'' ssl_options world0 =
        (Inl TypeError, world0\<lparr>requests := 2,
           trace := [Request ''https://host/a.png'' [(''timeout'', PyInt 30), (''verify'', PyBool True)],
                     Sleep 1000,
                     Request ''https://host/a.png'' [(''timeout'', PyInt 30), (''verify'', PyBool False)],
                     Sleep 1000]\<rparr>)"
    by (simp add: ssl_options_def session_get_def bind_kwargs_def sleep_def env_slow_def world0_def)
  from d have f: "fst (download_image env_slow ''https://host/a.png'' [''site'', ''downloaded_images''] world0) = None"
    by (simp add: download_image_def)
  from a b c d f show ?thesis by blast
qed

section \<open>The rewrite\<close>

lemma overlap_iff:
  "overlap v r \<longleftrightarrow>
     sublist v r \<or> sublist r v
     \<or> (\<exists>s. s \<noteq> [] \<and> suffix s r \<and> prefix s v)
     \<or> (\<exists>s. s \<noteq> [] \<and> suffix s v \<and> prefix s r)"
  by (auto simp: overlap_def list_ex_iff)

lemma sublist_drop_imp: "sublist v (drop n xs) \<Longrightarrow> sublist v xs"
proof -
  assume "sublist v (drop n xs)"
  then obtain ps ss where "drop n xs = ps @ v @ ss" by (auto simp: sublist_def)
  then have "xs = (take n xs @ ps) @ v @ ss"
    by (metis append_take_drop_id append_assoc)
  then show ?thesis unfolding sublist_def by blast
qed

lemma sublist_ConsI: "sublist v xs \<Longrightarrow> sublist v (x # xs)"
  by (simp add: sublist_Cons_right)

text \<open>A prefix of the output is a prefix of the input, or it ends inside or after an inserted text.\<close>

lemma replace_scan_prefix:
  "prefix v (replace_scan u r c) \<Longrightarrow>
   prefix v c \<or> (\<exists>s. s \<noteq> [] \<and> suffix s v \<and> (prefix s r \<or> prefix r s))"
proof (induction u r c arbitrary: v rule: replace_scan.induct)
  case (1 u r)
  then show ?case by simp
next
  case (2 u r c cs)
  show ?case
  proof (cases "prefix u (c # cs)")
    case True
    with "2.prems" have p: "prefix v (r @ replace_scan u r (drop (length u - 1) cs))" by simp
    show ?thesis
    proof (cases "v = []")
      case True
      then show ?thesis by simp
    next
      case False
      have "prefix r (r @ replace_scan u r (drop (length u - 1) cs))" by simp
      from prefix_same_cases [OF p this] have "prefix v r \<or> prefix r v" .
      with False show ?thesis by (intro disjI2 exI [of _ v]) simp
    qed
  next
    case False
    with "2.prems" have p: "prefix v (c # replace_scan u r cs)" by simp
    show ?thesis
    proof (cases v)
      case Nil
      then show ?thesis by simp
    next
      case (Cons x v')
      with p have x: "x = c" and p': "prefix v' (replace_scan u r cs)" by simp_all
      from "2.IH"(2) [OF False p'] show ?thesis
      proof
        assume "prefix v' cs"
        with Cons x show ?thesis by simp
      next
        assume "\<exists>s. s \<noteq> [] \<and> suffix s v' \<and> (prefix s r \<or> prefix r s)"
        then obtain s where "s \<noteq> []" "suffix s v'" "prefix s r \<or> prefix r s" by blast
        with Cons show ?thesis by (intro disjI2 exI [of _ s]) (simp add: suffix_ConsI)
      qed
    qed
  qed
qed

lemma ends_in_insert_overlap:
  assumes "s \<noteq> []" "suffix s v" "prefix s r \<or> prefix r s"
  shows "overlap v r"
proof -
  from assms(3) show ?thesis
  proof
    assume "prefix s r"
    with assms(1,2) show ?thesis unfolding overlap_iff by blast
  next
    assume "prefix r s"
    then have "sublist r s" by (rule prefix_imp_sublist)
    moreover from assms(2) have "sublist s v" by (rule suffix_imp_sublist)
    ultimately have "sublist r v" by (rule sublist_order.order.trans)
    then show ?thesis unfolding overlap_iff by blast
  qed
qed

lemma across_insert_overlap:
  assumes "sublist v (r @ out)"
  shows "sublist v out \<or> overlap v r"
proof -
  from assms [unfolded sublist_append]
  consider "sublist v r" | "sublist v out"
    | v1 v2 where "v = v1 @ v2" "suffix v1 r" "prefix v2 out"
    by blast
  then show ?thesis
  proof cases
    case 1
    then show ?thesis unfolding overlap_iff by blast
  next
    case 2
    then show ?thesis by blast
  next
    case 3
    show ?thesis
    proof (cases "v1 = []")
      case True
      with 3 have "prefix v out" by simp
      then show ?thesis by (simp add: prefix_imp_sublist)
    next
      case False
      from 3(1) have "prefix v1 v" by simp
      with False 3(2) show ?thesis unfolding overlap_iff by blast
    qed
  qed
qed

text \<open>Another string occurs in the output only where it occurred in the input or where it overlaps an inserted text.\<close>

lemma replace_scan_other:
  "sublist v (replace_scan u r c) \<Longrightarrow> sublist v c \<or> overlap v r"
proof (induction u r c rule: replace_scan.induct)
  case (1 u r)
  then show ?case by simp
next
  case (2 u r c cs)
  show ?case
  proof (cases "prefix u (c # cs)")
    case True
    with "2.prems" have "sublist v (r @ replace_scan u r (drop (length u - 1) cs))" by simp
    from across_insert_overlap [OF this] show ?thesis
    proof
      assume "sublist v (replace_scan u r (drop (length u - 1) cs))"
      from "2.IH"(1) [OF True this] show ?thesis
        by (auto dest: sublist_drop_imp intro: sublist_ConsI)
    qed simp
  next
    case False
    with "2.prems" have "sublist v (c # replace_scan u r cs)" by simp
    then have "prefix v (c # replace_scan u r cs) \<or> sublist v (replace_scan u r cs)"
      by (simp add: sublist_Cons_right)
    then show ?thesis
    proof
      assume "prefix v (c # replace_scan u r cs)"
      with False have "prefix v (replace_scan u r (c # cs))" by simp
      from replace_scan_prefix [OF this] show ?thesis
        by (auto intro: ends_in_insert_overlap prefix_imp_sublist)
    next
      assume "sublist v (replace_scan u r cs)"
      from "2.IH"(2) [OF False this] show ?thesis by (auto intro: sublist_ConsI)
    qed
  qed
qed

text \<open>The replaced string itself occurs in the output only where it overlaps an inserted text.\<close>

lemma replace_scan_self:
  "u \<noteq> [] \<Longrightarrow> sublist u (replace_scan u r c) \<Longrightarrow> overlap u r"
proof (induction u r c rule: replace_scan.induct)
  case (1 u r)
  then show ?case by simp
next
  case (2 u r c cs)
  show ?case
  proof (cases "prefix u (c # cs)")
    case True
    with "2.prems" have "sublist u (r @ replace_scan u r (drop (length u - 1) cs))" by simp
    from across_insert_overlap [OF this] show ?thesis
    proof
      assume "sublist u (replace_scan u r (drop (length u - 1) cs))"
      from "2.IH"(1) [OF True "2.prems"(1) this] show ?thesis .
    qed simp
  next
    case False
    with "2.prems" have "sublist u (c # replace_scan u r cs)" by simp
    then have "prefix u (c # replace_scan u r cs) \<or> sublist u (replace_scan u r cs)"
      by (simp add: sublist_Cons_right)
    then show ?thesis
    proof
      assume "prefix u (c # replace_scan u r cs)"
      with False have "prefix u (replace_scan u r (c # cs))" by simp
      from replace_scan_prefix [OF this] False show ?thesis
        by (auto intro: ends_in_insert_overlap)
    next
      assume "sublist u (replace_scan u r cs)"
      from "2.IH"(2) [OF False "2.prems"(1) this] show ?thesis .
    qed
  qed
qed

lemma replace_scan_none: "\<not> sublist u c \<Longrightarrow> replace_scan u r c = c"
proof (induction u r c rule: replace_scan.induct)
  case (1 u r)
  show ?case by simp
next
  case (2 u r c cs)
  from "2.prems" have np: "\<not> prefix u (c # cs)" and ns: "\<not> sublist u cs"
    by (auto simp: sublist_Cons_right)
  with "2.IH"(2) show ?case by simp
qed

lemma replace_scan_head:
  assumes "u \<noteq> []"
  shows "replace_scan u r (u @ b) = r @ replace_scan u r b"
proof -
  from assms obtain x xs where u: "u = x # xs" by (cases u) auto
  then show ?thesis by simp
qed

lemma replace_scan_first:
  "u \<noteq> [] \<Longrightarrow> \<not> sublist u (a @ butlast u) \<Longrightarrow>
   replace_scan u r (a @ u @ b) = a @ r @ replace_scan u r b"
proof (induction a)
  case Nil
  then show ?case by (simp add: replace_scan_head)
next
  case (Cons x a)
  have np: "\<not> prefix u (x # a @ u @ b)"
  proof
    assume p: "prefix u (x # a @ u @ b)"
    have "x # a @ u @ b = ((x # a) @ butlast u) @ (last u # b)"
      using Cons.prems(1) by simp
    with p have "prefix u (((x # a) @ butlast u) @ (last u # b))" by simp
    moreover have "length u \<le> length ((x # a) @ butlast u)" by simp
    ultimately have "prefix u ((x # a) @ butlast u)"
      by (metis prefix_length_prefix prefix_append prefixI)
    then have "sublist u ((x # a) @ butlast u)" by (rule prefix_imp_sublist)
    with Cons.prems(2) show False by simp
  qed
  from Cons.prems(2) have "\<not> sublist u (a @ butlast u)"
    by (auto simp: sublist_Cons_right)
  from Cons.IH [OF Cons.prems(1) this] np show ?case by simp
qed

lemma successes_None: "successes ((url, None) # m) = successes m"
  by (simp add: successes_def)

lemma successes_Some:
  "successes ((url, Some f) # m) = (if f \<noteq> [] then (url, f) # successes m else successes m)"
  by (simp add: successes_def)

lemma replace_loop_successes:
  "replace_loop m content =
     foldl (\<lambda>c (url, f). str_replace c url (local_path f)) content (successes m)"
proof (induction m arbitrary: content)
  case Nil
  show ?case by (simp add: successes_def)
next
  case (Cons p m)
  obtain url v where p: "p = (url, v)" by (cases p)
  show ?case
  proof (cases v)
    case None
    with p Cons.IH show ?thesis by (simp add: successes_None)
  next
    case (Some f)
    with p Cons.IH show ?thesis by (simp add: successes_Some)
  qed
qed

lemma str_replace_other:
  assumes "\<not> overlap u r" "sublist v (str_replace c u r)"
  shows "sublist v c \<or> overlap v r"
proof -
  from assms(1) have "u \<noteq> []" by (auto simp: overlap_iff)
  with assms(2) show ?thesis by (simp add: str_replace_def replace_scan_other)
qed

lemma str_replace_self:
  assumes "\<not> overlap u r"
  shows "\<not> sublist u (str_replace c u r)"
proof -
  from assms have "u \<noteq> []" by (auto simp: overlap_iff)
  with assms replace_scan_self [of u r c] show ?thesis by (auto simp: str_replace_def)
qed

lemma foldl_keeps_clean:
  assumes "\<not> sublist v c"
    and "list_all (\<lambda>(url, f). \<not> overlap url (local_path f) \<and> \<not> overlap v (local_path f)) ps"
  shows "\<not> sublist v (foldl (\<lambda>c (url, f). str_replace c url (local_path f)) c ps)"
  using assms
proof (induction ps arbitrary: c)
  case Nil
  then show ?case by simp
next
  case (Cons p ps)
  obtain url f where p: "p = (url, f)" by (cases p)
  with Cons.prems(2) have o1: "\<not> overlap url (local_path f)"
    and o2: "\<not> overlap v (local_path f)"
    and rest: "list_all (\<lambda>(url, f). \<not> overlap url (local_path f) \<and> \<not> overlap v (local_path f)) ps"
    by simp_all
  from str_replace_other [OF o1, of v c] Cons.prems(1) o2
  have "\<not> sublist v (str_replace c url (local_path f))" by blast
  from Cons.IH [OF this rest] p show ?case by simp
qed

lemma no_overlaps_clean:
  assumes "no_overlaps m" and "(u, f) \<in> set (successes m)"
  shows "\<not> sublist u (replace_loop m content)"
proof -
  let ?step = "\<lambda>c (url, f). str_replace c url (local_path f)"
  from assms(2) obtain ps qs where split: "successes m = ps @ (u, f) # qs"
    by (auto simp: in_set_conv_decomp)
  have pair: "\<not> overlap a (local_path g')"
    if "(a, g) \<in> set (successes m)" "(b, g') \<in> set (successes m)" for a g b g'
    using assms(1) that by (auto simp: no_overlaps_def list_all_iff)
  have self: "\<not> overlap u (local_path f)"
    using pair [OF assms(2) assms(2)] .
  have q: "list_all (\<lambda>(url, g). \<not> overlap url (local_path g) \<and> \<not> overlap u (local_path g)) qs"
    unfolding list_all_iff
  proof (intro ballI)
    fix x assume x: "x \<in> set qs"
    obtain b g where xg: "x = (b, g)" by (cases x)
    with x split have mem: "(b, g) \<in> set (successes m)" by simp
    from pair [OF mem mem] pair [OF assms(2) mem] xg
    show "case x of (url, g) \<Rightarrow> \<not> overlap url (local_path g) \<and> \<not> overlap u (local_path g)"
      by simp
  qed
  have "replace_loop m content = foldl ?step (str_replace (foldl ?step content ps) u (local_path f)) qs"
    by (simp add: replace_loop_successes split)
  moreover have "\<not> sublist u (str_replace (foldl ?step content ps) u (local_path f))"
    using self by (rule str_replace_self)
  ultimately show ?thesis using foldl_keeps_clean [OF _ q] by simp
qed

lemma str_replace_none: "\<not> sublist u c \<Longrightarrow> str_replace c u r = c"
proof -
  assume n: "\<not> sublist u c"
  then have "u \<noteq> []" by auto
  with n show ?thesis by (simp add: str_replace_def replace_scan_none)
qed

lemma str_replace_first:
  "u \<noteq> [] \<Longrightarrow> \<not> sublist u (a @ butlast u) \<Longrightarrow>
   str_replace (a @ u @ b) u r = a @ r @ str_replace b u r"
  by (simp add: str_replace_def replace_scan_first)

lemma run_doc_dot:
  "files (snd (main env_ok (world_doc doc_dot))) [''site'', ''index.html'']
     = Some ''<img src=\"./downloaded_images/png..png\"><a href=\"http://h/png./downloaded_images/png..png\">''"
  by code_simp

lemma mapping_doc_dot:
  "fst (download_loop env_ok [''site'', ''downloaded_images''] (extract_from_text doc_dot) [] (world_doc doc_dot))
     = [(''http://h/png.'', Some ''png..png'')]"
  by code_simp

lemma contains_url_again:
  "sublist ''http://h/png.''
     ''<img src=\"./downloaded_images/png..png\"><a href=\"http://h/png./downloaded_images/png..png\">''"
  by code_simp

text \<open>
  C5, as stated, fails: the image of \<open>doc_dot\<close> is downloaded and its URL substituted,
  and the rewritten document contains the URL again, formed by the text in front of the
  second occurrence and the first character of the inserted path.
\<close>

theorem rewritten_document_contains_downloaded_url:
  "fst (download_loop env_ok [''site'', ''downloaded_images''] (extract_from_text doc_dot) [] (world_doc doc_dot))
     = [(''http://h/png.'', Some ''png..png'')]
   \<and> files (snd (main env_ok (world_doc doc_dot))) [''site'', ''index.html'']
     = Some ''<img src=\"./downloaded_images/png..png\"><a href=\"http://h/png./downloaded_images/png..png\">''
   \<and> sublist ''http://h/png.''
     ''<img src=\"./downloaded_images/png..png\"><a href=\"http://h/png./downloaded_images/png..png\">''"
  using mapping_doc_dot run_doc_dot contains_url_again by (intro conjI)

lemma replace_image_urls_writes:
  assumes "files w (cd @ [''index.html'']) = Some content" and "writable e (cd @ [''index.html''])"
    and "rename_replaces e \<or> files w (cd @ [''index.html.backup'']) = None"
  shows "files (snd (replace_image_urls e (cd @ [''index.html'']) m w)) (cd @ [''index.html''])
           = Some (replace_loop m content)"
  using replace_image_urls_steps [OF assms(1,3), of m] assms(2)
  by (simp add: write_file_def)

text \<open>
  C5, amended. The rewrite goes through the entries with a non-empty file name, in the
  order of the mapping, and replaces in the text the occurrences of the entry's URL, found
  from left to right without overlap, by \<open>./downloaded_images/\<close> and the file name; an
  entry mapped to \<open>None\<close> changes nothing; the result is what is written to the document.
  The rewritten text contains no URL of a substituted entry when no such URL overlaps the
  local path of a substituted entry.
\<close>

theorem rewrite_substitutes_successful_urls:
  "replace_loop m content = foldl (\<lambda>c (url, f). str_replace c url (local_path f)) content (successes m)
   \<and> replace_loop ((url, None) # m) content = replace_loop m content
   \<and> local_path f = ''./downloaded_images/'' @ f
   \<and> (u \<noteq> [] \<and> \<not> sublist u (a @ butlast u) \<longrightarrow>
        str_replace (a @ u @ b) u r = a @ r @ str_replace b u r)
   \<and> (\<not> sublist u content \<longrightarrow> str_replace content u r = content)
   \<and> (no_overlaps m \<and> (u, f) \<in> set (successes m) \<longrightarrow> \<not> sublist u (replace_loop m content))
   \<and> (files w (cd @ [''index.html'']) = Some content \<and> writable e (cd @ [''index.html''])
        \<and> (rename_replaces e \<or> files w (cd @ [''index.html.backup'']) = None) \<longrightarrow>
        files (snd (replace_image_urls e (cd @ [''index.html'']) m w)) (cd @ [''index.html''])
          = Some (replace_loop m content))"
  using replace_loop_successes [of m content] str_replace_first [of u a b r]
    str_replace_none [of u content r] no_overlaps_clean [of m u f content]
    replace_image_urls_writes [of w cd content e m]
  by (simp add: local_path_def)

theorem rewrite_substitutes_successful_urls_witness:
  "no_overlaps [(''https://host/a.png'', Some ''a.png'')]
   \<and> (''https://host/a.png'', ''a.png'') \<in> set (successes [(''https://host/a.png'', Some ''a.png'')])
   \<and> \<not> sublist ''https://host/a.png'' (replace_loop [(''https://host/a.png'', Some ''a.png'')] doc_one)
   \<and> ''https://host/a.png'' \<noteq> []
   \<and> \<not> sublist ''https://host/a.png'' (''<img src=\"'' @ butlast ''https://host/a.png'')
   \<and> str_replace (''<img src=\"'' @ ''https://host/a.png'' @ ''\">'') ''https://host/a.png'' (local_path ''a.png'')
       = ''<img src=\"'' @ local_path ''a.png'' @ str_replace ''\">'' ''https://host/a.png'' (local_path ''a.png'')
   \<and> \<not> sublist ''https://host/a.png'' ''<p>text</p>''
   \<and> str_replace ''<p>text</p>'' ''https://host/a.png'' (local_path ''a.png'') = ''<p>text</p>''
   \<and> files (world_doc doc_one) ([''site''] @ [''index.html'']) = Some doc_one
   \<and> writable env_ok ([''site''] @ [''index.html''])
   \<and> (rename_replaces env_ok \<or> files (world_doc doc_one) ([''site''] @ [''index.html.backup'']) = None)
   \<and> files (snd (replace_image_urls env_ok ([''site''] @ [''index.html''])
          [(''https://host/a.png'', Some ''a.png'')] (world_doc doc_one))) ([''site''] @ [''index.html''])
       = Some (replace_loop [(''https://host/a.png'', Some ''a.png'')] doc_one)"
proof -
  let ?u = "''https://host/a.png''"
  let ?m = "[(?u, Some ''a.png'')]"
  have h1: "no_overlaps ?m" by code_simp
  have h2: "(?u, ''a.png'') \<in> set (successes ?m)" by (simp add: successes_def)
  have h3: "?u \<noteq> []" by simp
  have h4: "\<not> sublist ?u (''<img src=\"'' @ butlast ?u)" by code_simp
  have h5: "\<not> sublist ?u ''<p>text</p>''" by code_simp
  have h6: "files (world_doc doc_one) ([''site''] @ [''index.html'']) = Some doc_one"
    by (simp add: world_doc_def)
  have h7: "writable env_ok ([''site''] @ [''index.html''])" by (simp add: env_ok_def)
  have h8: "rename_replaces env_ok \<or> files (world_doc doc_one) ([''site''] @ [''index.html.backup'']) = None"
    by (simp add: world_doc_def)
  note t1 = rewrite_substitutes_successful_urls [of ?m doc_one "[]" "''a.png''" ?u "''<img src=\"''" "''\">''"
      "local_path ''a.png''" "world_doc doc_one" "[''site'']" env_ok]
  note t2 = rewrite_substitutes_successful_urls [of ?m "''<p>text</p>''" "[]" "''a.png''" ?u "[]" "[]"
      "local_path ''a.png''" "world_doc doc_one" "[''site'']" env_ok]
  from t1 h1 h2 have c1: "\<not> sublist ?u (replace_loop ?m doc_one)" by blast
  from t1 h3 h4 have c2: "str_replace (''<img src=\"'' @ ?u @ ''\">'') ?u (local_path ''a.png'')
       = ''<img src=\"'' @ local_path ''a.png'' @ str_replace ''\">'' ?u (local_path ''a.png'')" by blast
  from t2 h5 have c3: "str_replace ''<p>text</p>'' ?u (local_path ''a.png'') = ''<p>text</p>''" by blast
  from t1 h6 h7 h8 have c4: "files (snd (replace_image_urls env_ok ([''site''] @ [''index.html'']) ?m (world_doc doc_one)))
       ([''site''] @ [''index.html'']) = Some (replace_loop ?m doc_one)" by blast
  from h1 h2 h3 h4 h5 h6 h7 h8 c1 c2 c3 c4 show ?thesis by (intro conjI)
qed

end
